theory Spec2Isabelle
  imports Main
begin

unbundle bit_operations_syntax

section \<open>Data model of hits.c\<close>

text \<open>
  Handles returned by the HIP runtime and by the C library (events, streams, device and
  host buffers) are opaque to the program.  They are modelled as natural numbers;
  \<open>0\<close> is the null pointer.
\<close>

type_synonym handle = nat

datatype TransferType = HTOD | DTOH | DTOD

text \<open>The two fields of \<open>hipDeviceProp_t\<close> that the program reads.\<close>

record DeviceProp =
  pciDomainID :: int
  pciBusID :: int

record Transfer =
  start :: handle
  stop :: handle
  device :: int
  device2 :: int
  dest :: handle
  src :: handle
  stream :: handle
  type :: TransferType
  numa_node :: int
  is_started :: bool
  prop_device :: DeviceProp
  prop_device2 :: DeviceProp

definition is_numa_aware :: int where
  "is_numa_aware = 1"

definition is_pinned :: int where
  "is_pinned = 2"

text \<open>
  The heap array \<open>transfer\<close> together with its fill count \<open>n_transfers\<close> is the list of
  the slots filled so far; \<open>n_transfers\<close> is its length.
\<close>

record Hits =
  transfer :: "Transfer list"
  n_iter :: int
  n_size :: int
  alloc_flags :: int

definition n_transfers :: "Hits \<Rightarrow> nat" where
  "n_transfers h = length (transfer h)"

definition N_SIZE_MAX :: int where
  "N_SIZE_MAX = 1073741824"

definition N_SIZE_DEFAULT :: int where
  "N_SIZE_DEFAULT = N_SIZE_MAX"

definition N_ITER_DEFAULT :: int where
  "N_ITER_DEFAULT = 100"

section \<open>Calls into the runtime and the C library\<close>

text \<open>Console output, one constructor per message of the program with its arguments.\<close>

datatype Msg =
    Err_checkHip int
  | Err_dtoh_id
  | Err_htod_id
  | Err_iter
  | Err_dtod_first
  | Err_dtod_second
  | Err_dtod_extra
  | Err_size_parse
  | Err_size_max
  | Err_p2p int int
  | Err_main_alloc
  | Usage
  | Launch_direct TransferType int int "int option"
  | Launch_p2p int int int int
  | Completed
  | Result_p2p nat int int int int
  | Result_direct nat TransferType int int

datatype MemcpyKind = hipMemcpyDeviceToHost | hipMemcpyHostToDevice

text \<open>
  Every externally visible action of the program, in the order of the source.  The
  out-parameters of the creating calls are not arguments here; the handle a creating
  call leaves behind is named after the call's position in the trace (see \<open>checkHip\<close>
  and the initialisers below).
\<close>

datatype Call =
    hipGetDeviceProperties int
  | hipSetDevice int
  | hipEventCreate
  | hipStreamCreateWithFlags
  | hipHostMalloc nat
  | hipMalloc nat
  | malloc nat
  | malloc_transfers
  | hipDeviceCanAccessPeer int int
  | hipDeviceEnablePeerAccess int
  | fopen string
  | fscanf
  | fclose
  | numa_set_preferred int
  | hipEventRecord handle handle
  | hipMemcpyAsync handle handle nat MemcpyKind handle
  | hipMemcpyPeerAsync handle int handle int nat handle
  | hipDeviceSynchronize
  | hipEventElapsedTime handle handle
  | hipHostFree handle
  | free handle
  | free_transfers
  | fprintf_stderr Msg
  | printf Msg

type_synonym trace = "Call list"

text \<open>
  What the machine answers.  \<open>hip_ret\<close> is the \<open>hipError_t\<close> of a runtime call made
  after the given history (0 is \<open>hipSuccess\<close>); \<open>device_prop\<close> is what
  \<open>hipGetDeviceProperties\<close> writes; \<open>peer_access\<close> is the value that
  \<open>hipDeviceCanAccessPeer\<close> leaves in \<open>is_access\<close>; \<open>alloc_null\<close> tells whether a
  host allocation made after the given history yields the null pointer;
  \<open>fopen_null\<close> tells whether \<open>fopen\<close> of a path fails; \<open>fscanf_d\<close> is the integer
  converted by \<open>fscanf(file, "%d", ...)\<close> when it returns 1, and \<open>None\<close> otherwise.
\<close>

record World =
  hip_ret :: "trace \<Rightarrow> Call \<Rightarrow> int"
  device_prop :: "int \<Rightarrow> DeviceProp"
  peer_access :: "int \<Rightarrow> int \<Rightarrow> int"
  alloc_null :: "trace \<Rightarrow> Call \<Rightarrow> bool"
  fopen_null :: "string \<Rightarrow> bool"
  fscanf_d :: "string \<Rightarrow> int option"

text \<open>
  A run either goes on with a value, or the process ends: \<open>exit(code)\<close> or the
  \<open>abort\<close> of a failed \<open>assert\<close>.  Both carry the trace so far.
\<close>

datatype Halt = Exit int | Abort

type_synonym 'a result = "(Halt \<times> trace) + ('a \<times> trace)"

definition andThen :: "'a result \<Rightarrow> ('a \<Rightarrow> trace \<Rightarrow> 'b result) \<Rightarrow> 'b result" where
  "andThen m f = (case m of Inl e \<Rightarrow> Inl e | Inr (x, tr) \<Rightarrow> f x tr)"

text \<open>\<open>checkHip(call)\<close>: the call is made; a code other than \<open>hipSuccess\<close> is printed
  and becomes the exit status.\<close>

definition checkHip :: "World \<Rightarrow> Call \<Rightarrow> trace \<Rightarrow> unit result" where
  "checkHip w c tr =
     (let code = hip_ret w tr c in
      if code \<noteq> 0 then Inl (Exit code, tr @ [c, fprintf_stderr (Err_checkHip code)])
      else Inr ((), tr @ [c]))"

section \<open>Allocation phase\<close>

definition transfer_init_common :: "World \<Rightarrow> Transfer \<Rightarrow> trace \<Rightarrow> Transfer result" where
  "transfer_init_common w t0 tr0 =
     (let t1 = t0\<lparr>numa_node := - 1, is_started := False\<rparr> in
      andThen (checkHip w (hipGetDeviceProperties (device t1)) tr0) (\<lambda>_ tr1.
      let t2 = t1\<lparr>prop_device := device_prop w (device t1)\<rparr> in
      andThen (if device2 t2 \<ge> 0
               then checkHip w (hipGetDeviceProperties (device2 t2)) tr1
               else Inr ((), tr1)) (\<lambda>_ tr2.
      let t3 = (if device2 t2 \<ge> 0
                then t2\<lparr>prop_device2 := device_prop w (device2 t2)\<rparr> else t2) in
      andThen (checkHip w (hipSetDevice (device t3)) tr2) (\<lambda>_ tr3.
      andThen (checkHip w hipEventCreate tr3) (\<lambda>_ tr4.
      let t4 = t3\<lparr>start := length tr4\<rparr> in
      andThen (checkHip w hipEventCreate tr4) (\<lambda>_ tr5.
      let t5 = t4\<lparr>stop := length tr5\<rparr> in
      andThen (checkHip w hipStreamCreateWithFlags tr5) (\<lambda>_ tr6.
      Inr (t5\<lparr>stream := length tr6\<rparr>, tr6))))))))"

text \<open>\<open>%0Nx\<close> of \<open>sprintf\<close>: the argument read as \<open>unsigned int\<close>, in lower-case
  hexadecimal, padded with zeros to at least \<open>N\<close> digits.\<close>

definition hex_char :: "nat \<Rightarrow> char" where
  "hex_char d = ''0123456789abcdef'' ! d"

fun hex_digits :: "nat \<Rightarrow> string" where
  "hex_digits n = (if n < 16 then [hex_char n] else hex_digits (n div 16) @ [hex_char (n mod 16)])"

declare hex_digits.simps [simp del]

definition hex_pad :: "nat \<Rightarrow> int \<Rightarrow> string" where
  "hex_pad width x =
     (let ds = hex_digits (nat (x mod 2 ^ 32)) in replicate (width - length ds) CHR ''0'' @ ds)"

definition numa_file :: "DeviceProp \<Rightarrow> string" where
  "numa_file prop =
     ''/sys/class/pci_bus/'' @ hex_pad 4 (pciDomainID prop) @ '':'' @ hex_pad 2 (pciBusID prop)
       @ ''/device/numa_node''"

definition set_numa_affinity :: "World \<Rightarrow> Transfer \<Rightarrow> trace \<Rightarrow> Transfer \<times> trace" where
  "set_numa_affinity w t tr =
     (let path = numa_file (prop_device t); tr1 = tr @ [fopen path] in
      if fopen_null w path then (t, tr1)
      else (case fscanf_d w path of
              None \<Rightarrow> (t, tr1 @ [fscanf, fclose])
            | Some v \<Rightarrow> (t\<lparr>numa_node := v\<rparr>, tr1 @ [fscanf, fclose, numa_set_preferred v])))"

text \<open>The pointer a host allocation made after history \<open>tr\<close> yields.\<close>

definition host_ptr :: "World \<Rightarrow> trace \<Rightarrow> Call \<Rightarrow> handle" where
  "host_ptr w tr c = (if alloc_null w tr c then 0 else Suc (length tr))"

definition dtoh_transfer_init :: "World \<Rightarrow> Transfer \<Rightarrow> nat \<Rightarrow> int \<Rightarrow> trace \<Rightarrow> Transfer result" where
  "dtoh_transfer_init w t0 n_bytes flags tr0 =
     andThen (transfer_init_common w t0 tr0) (\<lambda>t1 tr1.
     let (t2, tr2) = (if flags AND is_numa_aware \<noteq> 0 then set_numa_affinity w t1 tr1
                      else (t1, tr1)) in
     andThen (if flags AND is_pinned \<noteq> 0
              then andThen (checkHip w (hipHostMalloc n_bytes) tr2) (\<lambda>_ tr3.
                     Inr (t2\<lparr>dest := host_ptr w tr2 (hipHostMalloc n_bytes)\<rparr>, tr3))
              else Inr (t2\<lparr>dest := host_ptr w tr2 (malloc n_bytes)\<rparr>, tr2 @ [malloc n_bytes]))
       (\<lambda>t3 tr3.
     if dest t3 = 0 then Inl (Abort, tr3)
     else andThen (checkHip w (hipMalloc n_bytes) tr3) (\<lambda>_ tr4.
          Inr (t3\<lparr>src := length tr4\<rparr>, tr4))))"

definition htod_transfer_init :: "World \<Rightarrow> Transfer \<Rightarrow> nat \<Rightarrow> int \<Rightarrow> trace \<Rightarrow> Transfer result" where
  "htod_transfer_init w t0 n_bytes flags tr0 =
     andThen (transfer_init_common w t0 tr0) (\<lambda>t1 tr1.
     let (t2, tr2) = (if flags AND is_numa_aware \<noteq> 0 then set_numa_affinity w t1 tr1
                      else (t1, tr1)) in
     andThen (if flags AND is_pinned \<noteq> 0
              then andThen (checkHip w (hipHostMalloc n_bytes) tr2) (\<lambda>_ tr3.
                     Inr (t2\<lparr>src := host_ptr w tr2 (hipHostMalloc n_bytes)\<rparr>, tr3))
              else Inr (t2\<lparr>src := host_ptr w tr2 (malloc n_bytes)\<rparr>, tr2 @ [malloc n_bytes]))
       (\<lambda>t3 tr3.
     if src t3 = 0 then Inl (Abort, tr3)
     else andThen (checkHip w (hipMalloc n_bytes) tr3) (\<lambda>_ tr4.
          Inr (t3\<lparr>dest := length tr4\<rparr>, tr4))))"

definition dtod_transfer_init :: "World \<Rightarrow> Transfer \<Rightarrow> nat \<Rightarrow> trace \<Rightarrow> Transfer result" where
  "dtod_transfer_init w t0 n_bytes tr0 =
     andThen (transfer_init_common w t0 tr0) (\<lambda>t1 tr1.
     let is_access = peer_access w (device t1) (device2 t1);
         tr2 = tr1 @ [hipDeviceCanAccessPeer (device t1) (device2 t1)] in
     if is_access = 0
     then Inl (Exit 1, tr2 @ [fprintf_stderr (Err_p2p (device t1) (device2 t1))])
     else
       andThen (checkHip w (hipSetDevice (device t1)) tr2) (\<lambda>_ tr3.
       andThen (checkHip w (hipMalloc n_bytes) tr3) (\<lambda>_ tr4.
       let t2 = t1\<lparr>dest := length tr4\<rparr> in
       andThen (checkHip w (hipDeviceEnablePeerAccess (device2 t2)) tr4) (\<lambda>_ tr5.
       andThen (checkHip w (hipSetDevice (device2 t2)) tr5) (\<lambda>_ tr6.
       andThen (checkHip w (hipMalloc n_bytes) tr6) (\<lambda>_ tr7.
       Inr (t2\<lparr>src := length tr7\<rparr>, tr7)))))))"

text \<open>The \<open>switch\<close> in the body of the loop of \<open>transfer_init\<close>.\<close>

definition transfer_init_switch :: "World \<Rightarrow> nat \<Rightarrow> int \<Rightarrow> Transfer \<Rightarrow> trace \<Rightarrow> Transfer result" where
  "transfer_init_switch w n_bytes flags t tr =
     (case type t of
        DTOH \<Rightarrow> dtoh_transfer_init w t n_bytes flags tr
      | HTOD \<Rightarrow> htod_transfer_init w t n_bytes flags tr
      | DTOD \<Rightarrow> dtod_transfer_init w t n_bytes tr)"

fun transfer_init_loop :: "World \<Rightarrow> nat \<Rightarrow> int \<Rightarrow> Transfer list \<Rightarrow> trace \<Rightarrow> Transfer list result" where
  "transfer_init_loop w n_bytes flags [] tr = Inr ([], tr)"
| "transfer_init_loop w n_bytes flags (t # ts) tr =
     andThen (transfer_init_switch w n_bytes flags t tr) (\<lambda>t' tr'.
     andThen (transfer_init_loop w n_bytes flags ts tr') (\<lambda>ts' tr''.
     Inr (t' # ts', tr'')))"

text \<open>Conversion of a \<open>long\<close> to \<open>size_t\<close> (both 64 bits wide).\<close>

definition size_t_of_long :: "int \<Rightarrow> nat" where
  "size_t_of_long v = nat (v mod 2 ^ 64)"

definition transfer_init :: "World \<Rightarrow> Hits \<Rightarrow> trace \<Rightarrow> Hits result" where
  "transfer_init w hits tr =
     andThen (transfer_init_loop w (size_t_of_long (n_size hits)) (alloc_flags hits)
                (transfer hits) tr) (\<lambda>ts tr'.
     Inr (hits\<lparr>transfer := ts\<rparr>, tr'))"

section \<open>Run phase\<close>

definition direct_transfer :: "World \<Rightarrow> Transfer \<Rightarrow> nat \<Rightarrow> bool \<Rightarrow> trace \<Rightarrow> Transfer result" where
  "direct_transfer w t0 n_bytes is_last_iter tr0 =
     andThen (checkHip w (hipSetDevice (device t0)) tr0) (\<lambda>_ tr1.
     andThen (if \<not> is_started t0
              then (let tr2 = tr1 @ [printf (Launch_direct (type t0) (device t0)
                                       (pciBusID (prop_device t0))
                                       (if numa_node t0 \<ge> 0 then Some (numa_node t0) else None))] in
                    andThen (checkHip w (hipEventRecord (start t0) (stream t0)) tr2) (\<lambda>_ tr3.
                    Inr (t0\<lparr>is_started := True\<rparr>, tr3)))
              else Inr (t0, tr1)) (\<lambda>t1 tr3.
     andThen (checkHip w (hipMemcpyAsync (dest t1) (src t1) n_bytes
                (if type t1 = DTOH then hipMemcpyDeviceToHost else hipMemcpyHostToDevice)
                (stream t1)) tr3) (\<lambda>_ tr4.
     if is_last_iter
     then andThen (checkHip w (hipEventRecord (stop t1) (stream t1)) tr4) (\<lambda>_ tr5. Inr (t1, tr5))
     else Inr (t1, tr4))))"

definition dtod_transfer :: "World \<Rightarrow> Transfer \<Rightarrow> nat \<Rightarrow> bool \<Rightarrow> trace \<Rightarrow> Transfer result" where
  "dtod_transfer w t0 n_bytes is_last_iter tr0 =
     andThen (checkHip w (hipSetDevice (device t0)) tr0) (\<lambda>_ tr1.
     andThen (if \<not> is_started t0
              then (let tr2 = tr1 @ [printf (Launch_p2p (device2 t0) (pciBusID (prop_device2 t0))
                                       (device t0) (pciBusID (prop_device t0)))] in
                    andThen (checkHip w (hipEventRecord (start t0) (stream t0)) tr2) (\<lambda>_ tr3.
                    Inr (t0\<lparr>is_started := True\<rparr>, tr3)))
              else Inr (t0, tr1)) (\<lambda>t1 tr3.
     andThen (checkHip w (hipMemcpyPeerAsync (dest t1) (device t1) (src t1) (device2 t1) n_bytes
                (stream t1)) tr3) (\<lambda>_ tr4.
     if is_last_iter
     then andThen (checkHip w (hipEventRecord (stop t1) (stream t1)) tr4) (\<lambda>_ tr5. Inr (t1, tr5))
     else Inr (t1, tr4))))"

text \<open>The inner loop of \<open>main\<close> over the transfers, for one iteration index.\<close>

fun issue_transfers :: "World \<Rightarrow> nat \<Rightarrow> bool \<Rightarrow> Transfer list \<Rightarrow> trace \<Rightarrow> Transfer list result" where
  "issue_transfers w n_bytes is_last [] tr = Inr ([], tr)"
| "issue_transfers w n_bytes is_last (t # ts) tr =
     andThen (if type t = DTOD then dtod_transfer w t n_bytes is_last tr
              else direct_transfer w t n_bytes is_last tr) (\<lambda>t' tr'.
     andThen (issue_transfers w n_bytes is_last ts tr') (\<lambda>ts' tr''.
     Inr (t' # ts', tr'')))"

text \<open>The outer loop of \<open>main\<close>; \<open>niter\<close> and \<open>i\<close> are \<open>size_t\<close>, so \<open>niter - 1\<close>
  wraps around at 0.\<close>

function issue_loop :: "World \<Rightarrow> nat \<Rightarrow> nat \<Rightarrow> nat \<Rightarrow> Transfer list \<Rightarrow> trace \<Rightarrow> Transfer list result" where
  "issue_loop w niter n_bytes i ts tr =
     (if i < niter
      then (case issue_transfers w n_bytes (i = (niter + 2 ^ 64 - 1) mod 2 ^ 64) ts tr of
              Inl e \<Rightarrow> Inl e
            | Inr (ts', tr') \<Rightarrow> issue_loop w niter n_bytes (Suc i) ts' tr')
      else Inr (ts, tr))"
  by pat_completeness auto
termination
  by (relation "measure (\<lambda>(w, niter, n_bytes, i, ts, tr). niter - i)") auto

declare issue_loop.simps [simp del]

fun synchronize :: "World \<Rightarrow> Transfer list \<Rightarrow> trace \<Rightarrow> unit result" where
  "synchronize w [] tr = Inr ((), tr)"
| "synchronize w (t # ts) tr =
     andThen (checkHip w (hipSetDevice (device t)) tr) (\<lambda>_ tr1.
     andThen (checkHip w hipDeviceSynchronize tr1) (\<lambda>_ tr2.
     synchronize w ts tr2))"

text \<open>The reporting loop.  The bandwidth figure of each line is a \<open>float\<close> computed from
  the \<open>float\<close> that \<open>hipEventElapsedTime\<close> writes; it is not part of the message here.\<close>

fun report :: "World \<Rightarrow> nat \<Rightarrow> Transfer list \<Rightarrow> trace \<Rightarrow> unit result" where
  "report w i [] tr = Inr ((), tr)"
| "report w i (t # ts) tr =
     andThen (checkHip w (hipSetDevice (device t)) tr) (\<lambda>_ tr1.
     andThen (checkHip w (hipEventElapsedTime (start t) (stop t)) tr1) (\<lambda>_ tr2.
     report w (Suc i) ts
       (tr2 @ [printf (if type t = DTOD
                       then Result_p2p i (device2 t) (pciBusID (prop_device2 t)) (device t)
                              (pciBusID (prop_device t))
                       else Result_direct i (type t) (device t) (pciBusID (prop_device t)))])))"

section \<open>Teardown\<close>

fun fini_loop :: "World \<Rightarrow> int \<Rightarrow> Transfer list \<Rightarrow> trace \<Rightarrow> unit result" where
  "fini_loop w flags [] tr = Inr ((), tr)"
| "fini_loop w flags (t # ts) tr =
     andThen (case type t of
                DTOH \<Rightarrow> (if flags AND is_pinned \<noteq> 0 then checkHip w (hipHostFree (dest t)) tr
                         else Inr ((), tr @ [free (dest t)]))
              | HTOD \<Rightarrow> (if flags AND is_pinned \<noteq> 0 then checkHip w (hipHostFree (src t)) tr
                         else Inr ((), tr @ [free (src t)]))
              | DTOD \<Rightarrow> Inr ((), tr)) (\<lambda>_ tr'.
     fini_loop w flags ts tr')"

definition fini :: "World \<Rightarrow> Hits \<Rightarrow> trace \<Rightarrow> unit result" where
  "fini w hits tr =
     andThen (fini_loop w (alloc_flags hits) (transfer hits) tr) (\<lambda>_ tr'.
     Inr ((), tr' @ [free_transfers]))"

section \<open>Command line\<close>

definition EINVAL :: int where
  "EINVAL = 22"

definition ERANGE :: int where
  "ERANGE = 34"

definition LONG_MAX :: int where
  "LONG_MAX = 2 ^ 63 - 1"

definition LONG_MIN :: int where
  "LONG_MIN = - (2 ^ 63)"

definition isspace :: "char \<Rightarrow> bool" where
  "isspace c = (c \<in> set [CHR '' '', CHR 0x09, CHR 0x0A, CHR 0x0B, CHR 0x0C, CHR 0x0D])"

definition isdigit :: "char \<Rightarrow> bool" where
  "isdigit c = (48 \<le> (of_char c :: nat) \<and> (of_char c :: nat) \<le> 57)"

definition digit_val :: "char \<Rightarrow> int" where
  "digit_val c = int (of_char c) - 48"

text \<open>
  \<open>strtol(s, &endptr, 10)\<close> of the C library: white space is skipped, then an optional
  sign and the longest run of decimal digits are read.  The result is the value, the
  offset of \<open>endptr\<close> from \<open>s\<close>, and \<open>errno\<close> afterwards: with no digit the value is 0,
  \<open>endptr\<close> is \<open>s\<close> and \<open>errno\<close> is left alone; a value outside \<open>long\<close> is clamped and
  sets \<open>errno\<close> to \<open>ERANGE\<close>.
\<close>

definition strtol :: "string \<Rightarrow> int \<Rightarrow> int \<times> nat \<times> int" where
  "strtol s errno =
     (let ws = takeWhile isspace s;
          r1 = dropWhile isspace s;
          has_sign = (r1 \<noteq> [] \<and> (hd r1 = CHR ''-'' \<or> hd r1 = CHR ''+''));
          neg = (r1 \<noteq> [] \<and> hd r1 = CHR ''-'');
          r2 = (if has_sign then tl r1 else r1);
          ds = takeWhile isdigit r2 in
      if ds = [] then (0, 0, errno)
      else
        (let mag = foldl (\<lambda>a c. 10 * a + digit_val c) 0 ds;
             v = (if neg then - mag else mag);
             endp = length ws + (if has_sign then 1 else 0) + length ds in
         if v > LONG_MAX then (LONG_MAX, endp, ERANGE)
         else if v < LONG_MIN then (LONG_MIN, endp, ERANGE)
         else (v, endp, errno)))"

text \<open>Assignment of a \<open>long\<close> to an \<open>int\<close> field: the low 32 bits, read as signed.\<close>

definition int_of_long :: "int \<Rightarrow> int" where
  "int_of_long v = (v + 2 ^ 31) mod 2 ^ 32 - 2 ^ 31"

text \<open>
  The successive results of \<open>strtok(s, ",")\<close>, \<open>strtok(NULL, ",")\<close>, ...: each token with
  the offset of its first character in the buffer.  After the last one \<open>strtok\<close> returns
  \<open>NULL\<close>.
\<close>

function strtok_comma :: "nat \<Rightarrow> string \<Rightarrow> (nat \<times> string) list" where
  "strtok_comma off s =
     (let n = length (takeWhile (\<lambda>c. c = CHR '','') s);
          s1 = drop n s in
      if s1 = [] then []
      else
        (let tok = takeWhile (\<lambda>c. c \<noteq> CHR '','') s1;
             rest = drop (length tok) s1 in
         (off + n, tok) # (if rest = [] then []
                           else strtok_comma (off + n + length tok + 1) (tl rest))))"
  by pat_completeness auto
termination
  by (relation "measure (\<lambda>(off, s). length s)") auto

declare strtok_comma.simps [simp del]

text \<open>
  The keys with which \<open>argp_parse\<close> calls the parser: the seven options of the table
  (named after their characters), the end of the arguments, and any other special key.
\<close>

datatype Opt = Opt_d | Opt_h | Opt_i | Opt_n | Opt_m | Opt_p | Opt_s

datatype Key = Key Opt | ARGP_KEY_END | ARGP_KEY_other

definition ARGP_ERR_UNKNOWN :: int where
  "ARGP_ERR_UNKNOWN = 7"

text \<open>Status with which \<open>argp_usage\<close> ends the process (\<open>argp_err_exit_status\<close>).\<close>

definition EX_USAGE :: int where
  "EX_USAGE = 64"

text \<open>
  A slot of the array as \<open>malloc\<close> leaves it.  Its content is indeterminate in C; the
  program writes every field before reading it, and the model starts from zeros.
\<close>

definition blank_transfer :: Transfer where
  "blank_transfer =
     \<lparr>start = 0, stop = 0, device = 0, device2 = 0, dest = 0, src = 0, stream = 0,
      type = HTOD, numa_node = 0, is_started = False,
      prop_device = \<lparr>pciDomainID = 0, pciBusID = 0\<rparr>,
      prop_device2 = \<lparr>pciDomainID = 0, pciBusID = 0\<rparr>\<rparr>"

text \<open>
  One call of the parser.  The state is the \<open>Hits_t\<close> structure and \<open>errno\<close>, which the
  program reads but never clears.  The result is the returned \<open>error_t\<close> with the new
  state.  Pointers into the argument are offsets from its start.
\<close>

definition parse_opt :: "Key \<Rightarrow> string \<Rightarrow> Hits \<Rightarrow> int \<Rightarrow> trace \<Rightarrow> (int \<times> Hits \<times> int) result" where
  "parse_opt key arg hits errno tr =
     (case key of
        Key Opt_d \<Rightarrow>
          (let (v, endp, errno1) = strtol arg errno;
               t = blank_transfer\<lparr>type := DTOH, device := int_of_long v\<rparr> in
           if errno1 = EINVAL \<or> errno1 = ERANGE \<or> device t < 0
           then Inl (Exit 1, tr @ [fprintf_stderr Err_dtoh_id])
           else Inr ((0, hits\<lparr>transfer := transfer hits @ [t\<lparr>device2 := - 1\<rparr>]\<rparr>, errno1), tr))
      | Key Opt_h \<Rightarrow>
          (let (v, endp, errno1) = strtol arg errno;
               t = blank_transfer\<lparr>type := HTOD, device := int_of_long v\<rparr> in
           if errno1 = EINVAL \<or> errno1 = ERANGE \<or> device t < 0
           then Inl (Exit 1, tr @ [fprintf_stderr Err_htod_id])
           else Inr ((0, hits\<lparr>transfer := transfer hits @ [t\<lparr>device2 := - 1\<rparr>]\<rparr>, errno1), tr))
      | Key Opt_i \<Rightarrow>
          (let (v, endp, errno1) = strtol arg errno;
               hits1 = hits\<lparr>n_iter := v\<rparr> in
           if errno1 = EINVAL \<or> errno1 = ERANGE \<or> n_iter hits1 < 0
           then Inl (Exit 1, tr @ [fprintf_stderr Err_iter])
           else Inr ((0, hits1, errno1), tr))
      | Key Opt_n \<Rightarrow> Inr ((0, hits\<lparr>alloc_flags := alloc_flags hits AND NOT is_numa_aware\<rparr>, errno), tr)
      | Key Opt_m \<Rightarrow> Inr ((0, hits\<lparr>alloc_flags := alloc_flags hits AND NOT is_pinned\<rparr>, errno), tr)
      | Key Opt_p \<Rightarrow>
          (case strtok_comma 0 arg of
             [] \<Rightarrow> Inl (Exit 1, tr @ [fprintf_stderr Err_dtod_first])
           | (token1, s1) # toks1 \<Rightarrow>
               (let (v1, endp1, errno1) = strtol s1 errno;
                    t1 = blank_transfer\<lparr>type := DTOD, device := int_of_long v1\<rparr> in
                if errno1 = EINVAL \<or> errno1 = ERANGE \<or> token1 = token1 + endp1 \<or> device t1 < 0
                then Inl (Exit 1, tr @ [fprintf_stderr Err_dtod_first])
                else
                  (case toks1 of
                     [] \<Rightarrow> Inl (Exit 1, tr @ [fprintf_stderr Err_dtod_second])
                   | (token2, s2) # toks2 \<Rightarrow>
                       (let (v2, endp2, errno2) = strtol s2 errno1;
                            t2 = t1\<lparr>device2 := int_of_long v2\<rparr> in
                        if errno2 = EINVAL \<or> errno2 = ERANGE \<or> token2 = token2 + endp2
                             \<or> device2 t2 < 0
                        then Inl (Exit 1, tr @ [fprintf_stderr Err_dtod_second])
                        else
                          (case toks2 of
                             [] \<Rightarrow> Inr ((0, hits\<lparr>transfer := transfer hits @ [t2]\<rparr>, errno2), tr)
                           | (token3, s3) # toks3 \<Rightarrow>
                               if token3 \<noteq> token2 + endp2
                               then Inl (Exit 1, tr @ [fprintf_stderr Err_dtod_extra])
                               else Inr ((0, hits\<lparr>transfer := transfer hits @ [t2]\<rparr>, errno2),
                                         tr))))))
      | Key Opt_s \<Rightarrow>
          (let (v, endp, errno1) = strtol arg errno;
               hits1 = hits\<lparr>n_size := v\<rparr> in
           if errno1 = EINVAL \<or> errno1 = ERANGE \<or> n_iter hits1 < 0
           then Inl (Exit 1, tr @ [fprintf_stderr Err_size_parse])
           else if n_size hits1 > N_SIZE_MAX
           then Inl (Exit 1, tr @ [fprintf_stderr Err_size_max])
           else Inr ((0, hits1, errno1), tr))
      | ARGP_KEY_END \<Rightarrow>
          (if n_transfers hits = 0 then Inl (Exit EX_USAGE, tr @ [fprintf_stderr Usage])
           else Inr ((0, hits, errno), tr))
      | ARGP_KEY_other \<Rightarrow> Inr ((ARGP_ERR_UNKNOWN, hits, errno), tr))"

text \<open>
  \<open>argp_parse\<close> as the program uses it: the parser is called once for each option of the
  command line, in order, and then with \<open>ARGP_KEY_END\<close>.
\<close>

fun argp_parse :: "(Opt \<times> string) list \<Rightarrow> Hits \<Rightarrow> int \<Rightarrow> trace \<Rightarrow> (Hits \<times> int) result" where
  "argp_parse [] hits errno tr =
     andThen (parse_opt ARGP_KEY_END [] hits errno tr) (\<lambda>(r, hits', errno') tr'.
     Inr ((hits', errno'), tr'))"
| "argp_parse ((key, arg) # rest) hits errno tr =
     andThen (parse_opt (Key key) arg hits errno tr) (\<lambda>(r, hits', errno') tr'.
     argp_parse rest hits' errno' tr')"

definition defaults :: Hits where
  "defaults =
     \<lparr>transfer = [], n_iter = N_ITER_DEFAULT, n_size = N_SIZE_DEFAULT,
      alloc_flags = is_numa_aware OR is_pinned\<rparr>"

text \<open>\<open>init\<close>: the array of transfers is allocated, the defaults are set, the command
  line is parsed, and the transfers are initialised.  \<open>errno\<close> is 0 at program start.\<close>

definition init :: "World \<Rightarrow> (Opt \<times> string) list \<Rightarrow> Hits result" where
  "init w opts =
     (let tr0 = [malloc_transfers] in
      if alloc_null w [] malloc_transfers
      then Inl (Exit 1, tr0 @ [fprintf_stderr Err_main_alloc])
      else andThen (argp_parse opts defaults 0 tr0) (\<lambda>(hits, errno) tr1.
           transfer_init w hits tr1))"

section \<open>The program\<close>

text \<open>
  \<open>main\<close>, from the options of the command line to the exit status and the trace.  The
  heartbeat thread only prints dots and is left out.
\<close>

definition main :: "World \<Rightarrow> (Opt \<times> string) list \<Rightarrow> Halt \<times> trace" where
  "main w opts =
     (case
        andThen (init w opts) (\<lambda>hits tr0.
        let niter = size_t_of_long (n_iter hits);
            n_bytes = size_t_of_long (n_size hits) in
        andThen (issue_loop w niter n_bytes 0 (transfer hits) tr0) (\<lambda>ts tr1.
        let hits1 = hits\<lparr>transfer := ts\<rparr> in
        andThen (synchronize w (transfer hits1) tr1) (\<lambda>_ tr2.
        andThen (report w 0 (transfer hits1) (tr2 @ [printf Completed])) (\<lambda>_ tr3.
        fini w hits1 tr3))))
      of Inl e \<Rightarrow> e
       | Inr (u, tr) \<Rightarrow> (Exit 0, tr))"

section \<open>Reading a run\<close>

text \<open>The trace with which a run ends or goes on.\<close>

definition trace_of :: "'a result \<Rightarrow> trace" where
  "trace_of r = (case r of Inl (h, tr) \<Rightarrow> tr | Inr (x, tr) \<Rightarrow> tr)"

text \<open>\<open>extends Q tr r\<close>: the run \<open>r\<close>, started after \<open>tr\<close>, only added calls that
  satisfy \<open>Q\<close>.\<close>

definition extends :: "(Call \<Rightarrow> bool) \<Rightarrow> trace \<Rightarrow> 'a result \<Rightarrow> bool" where
  "extends Q tr r = (\<exists>new. trace_of r = tr @ new \<and> (\<forall>c \<in> set new. Q c))"

fun is_numa_pref :: "Call \<Rightarrow> bool" where
  "is_numa_pref (numa_set_preferred v) = True"
| "is_numa_pref c = False"

section \<open>Sample machines and inputs\<close>

text \<open>A machine on which every call succeeds, any two devices are peers, and the
  topology file of every device reads 1.\<close>

definition W_ok :: World where
  "W_ok = \<lparr>hip_ret = (\<lambda>tr c. 0), device_prop = (\<lambda>d. \<lparr>pciDomainID = 0, pciBusID = 3 + d\<rparr>),
     peer_access = (\<lambda>d d2. 1), alloc_null = (\<lambda>tr c. False), fopen_null = (\<lambda>p. False),
     fscanf_d = (\<lambda>p. Some 1)\<rparr>"

text \<open>The same machine with topology files that read -1.\<close>

definition W_minus1 :: World where
  "W_minus1 = W_ok\<lparr>fscanf_d := (\<lambda>p. Some (- 1))\<rparr>"

text \<open>The slot that \<open>--htod=0\<close> fills.\<close>

definition T_htod :: Transfer where
  "T_htod = blank_transfer\<lparr>type := HTOD, device := 0, device2 := - 1\<rparr>"

fun is_buffer_alloc :: "Call \<Rightarrow> bool" where
  "is_buffer_alloc (hipHostMalloc n) = True"
| "is_buffer_alloc (hipMalloc n) = True"
| "is_buffer_alloc (malloc n) = True"
| "is_buffer_alloc c = False"

text \<open>A machine whose devices are not peers, and the slot that \<open>--dtod=1,0\<close> fills.\<close>

definition W_nopeer :: World where
  "W_nopeer = W_ok\<lparr>peer_access := (\<lambda>d d2. 0)\<rparr>"

definition T_dtod :: Transfer where
  "T_dtod = blank_transfer\<lparr>type := DTOD, device := 1, device2 := 0\<rparr>"

text \<open>The transfer once its first unit has been issued.\<close>

definition started :: "Transfer \<Rightarrow> Transfer" where
  "started t = t\<lparr>is_started := True\<rparr>"

text \<open>The message printed when a transfer is launched, and its copy submission.\<close>

definition launch_msg :: "Transfer \<Rightarrow> Msg" where
  "launch_msg t =
     (if type t = DTOD
      then Launch_p2p (device2 t) (pciBusID (prop_device2 t)) (device t) (pciBusID (prop_device t))
      else Launch_direct (type t) (device t) (pciBusID (prop_device t))
             (if numa_node t \<ge> 0 then Some (numa_node t) else None))"

definition copy_call :: "nat \<Rightarrow> Transfer \<Rightarrow> Call" where
  "copy_call n_bytes t =
     (if type t = DTOD
      then hipMemcpyPeerAsync (dest t) (device t) (src t) (device2 t) n_bytes (stream t)
      else hipMemcpyAsync (dest t) (src t) n_bytes
             (if type t = DTOH then hipMemcpyDeviceToHost else hipMemcpyHostToDevice) (stream t))"

text \<open>The calls of one issued unit (\<open>direct_transfer\<close> or \<open>dtod_transfer\<close>) that runs to
  its end, and of one round of the inner loop.\<close>

definition step_calls :: "nat \<Rightarrow> bool \<Rightarrow> Transfer \<Rightarrow> Call list" where
  "step_calls n_bytes is_last t =
     hipSetDevice (device t)
     # (if is_started t then [] else [printf (launch_msg t), hipEventRecord (start t) (stream t)])
     @ copy_call n_bytes t
     # (if is_last then [hipEventRecord (stop t) (stream t)] else [])"

definition round_calls :: "nat \<Rightarrow> bool \<Rightarrow> Transfer list \<Rightarrow> Call list" where
  "round_calls n_bytes is_last ts = concat (map (step_calls n_bytes is_last) ts)"

text \<open>The first \<open>k\<close> rounds of the outer loop of \<open>main\<close>: the state with which the loop
  reaches index \<open>k\<close>.\<close>

fun issue_prefix :: "World \<Rightarrow> nat \<Rightarrow> nat \<Rightarrow> nat \<Rightarrow> Transfer list \<Rightarrow> trace \<Rightarrow> Transfer list result" where
  "issue_prefix w niter n_bytes 0 ts tr = Inr (ts, tr)"
| "issue_prefix w niter n_bytes (Suc k) ts tr =
     andThen (issue_prefix w niter n_bytes k ts tr) (\<lambda>ts' tr'.
     issue_transfers w n_bytes (k = (niter + 2 ^ 64 - 1) mod 2 ^ 64) ts' tr')"

text \<open>Counting in a trace: the copy submissions, and the recordings of an event.\<close>

fun is_copy :: "Call \<Rightarrow> bool" where
  "is_copy (hipMemcpyAsync d s n k st) = True"
| "is_copy (hipMemcpyPeerAsync d dv s dv2 n st) = True"
| "is_copy c = False"

fun is_record_of :: "handle \<Rightarrow> Call \<Rightarrow> bool" where
  "is_record_of h (hipEventRecord e st) = (e = h)"
| "is_record_of h c = False"

definition records :: "handle \<Rightarrow> trace \<Rightarrow> nat" where
  "records h tr = length (filter (is_record_of h) tr)"

definition event_handles :: "Transfer list \<Rightarrow> handle list" where
  "event_handles ts = concat (map (\<lambda>t. [start t, stop t]) ts)"

text \<open>Two command lines, and the state in which \<open>init\<close> leaves the program on \<open>W_ok\<close>.\<close>

definition opts3 :: "(Opt \<times> string) list" where
  "opts3 = [(Opt_h, ''0''), (Opt_i, ''3''), (Opt_s, ''1024'')]"

definition opts_iter0 :: "(Opt \<times> string) list" where
  "opts_iter0 = [(Opt_h, ''0''), (Opt_i, ''0'')]"

definition T_ready :: Transfer where
  "T_ready =
     \<lparr>start = 4, stop = 5, device = 0, device2 = - 1, dest = 12, src = 11, stream = 6,
      type = HTOD, numa_node = 1, is_started = False,
      prop_device = \<lparr>pciDomainID = 0, pciBusID = 3\<rparr>,
      prop_device2 = \<lparr>pciDomainID = 0, pciBusID = 0\<rparr>\<rparr>"

definition TR_ready :: "nat \<Rightarrow> trace" where
  "TR_ready n =
     [malloc_transfers, hipGetDeviceProperties 0, hipSetDevice 0, hipEventCreate,
      hipEventCreate, hipStreamCreateWithFlags,
      fopen ''/sys/class/pci_bus/0000:03/device/numa_node'', fscanf, fclose,
      numa_set_preferred 1, hipHostMalloc n, hipMalloc n]"

text \<open>A run that ends the process does so with a status other than 0, or by \<open>abort\<close>.\<close>

definition no_exit0 :: "'a result \<Rightarrow> bool" where
  "no_exit0 r = (case r of Inl (h, tr) \<Rightarrow> h \<noteq> Exit 0 | Inr x \<Rightarrow> True)"

text \<open>
  Resources in a trace.  A creating call at position \<open>p\<close> of the trace leaves the handle
  \<open>p + 1\<close> (see \<open>transfer_init_common\<close>, \<open>host_ptr\<close> and the initialisers).
  \<open>acq_from P k tr\<close> lists the handles left by the calls of \<open>tr\<close> that satisfy \<open>P\<close>, when
  \<open>tr\<close> starts at position \<open>k\<close>.
\<close>

fun acquires :: "Call \<Rightarrow> bool" where
  "acquires hipEventCreate = True"
| "acquires hipStreamCreateWithFlags = True"
| "acquires (hipHostMalloc n) = True"
| "acquires (hipMalloc n) = True"
| "acquires (malloc n) = True"
| "acquires c = False"

fun is_host_alloc :: "Call \<Rightarrow> bool" where
  "is_host_alloc (hipHostMalloc n) = True"
| "is_host_alloc (malloc n) = True"
| "is_host_alloc c = False"

fun is_release :: "Call \<Rightarrow> bool" where
  "is_release (hipHostFree h) = True"
| "is_release (free h) = True"
| "is_release free_transfers = True"
| "is_release c = False"

fun acq_from :: "(Call \<Rightarrow> bool) \<Rightarrow> nat \<Rightarrow> trace \<Rightarrow> handle list" where
  "acq_from P k [] = []"
| "acq_from P k (c # cs) = (if P c then [Suc k] else []) @ acq_from P (Suc k) cs"

definition acquired :: "trace \<Rightarrow> handle list" where
  "acquired tr = acq_from acquires 0 tr"

definition host_acquired :: "trace \<Rightarrow> handle list" where
  "host_acquired tr = acq_from is_host_alloc 0 tr"

fun released_by :: "Call \<Rightarrow> handle list" where
  "released_by (hipHostFree h) = [h]"
| "released_by (free h) = [h]"
| "released_by c = []"

definition released :: "trace \<Rightarrow> handle list" where
  "released tr = concat (map released_by tr)"

text \<open>The host buffer of a transfer, and the call with which \<open>fini\<close> frees one.\<close>

definition host_buffer :: "Transfer \<Rightarrow> handle list" where
  "host_buffer t = (case type t of DTOH \<Rightarrow> [dest t] | HTOD \<Rightarrow> [src t] | DTOD \<Rightarrow> [])"

definition free_call :: "int \<Rightarrow> handle \<Rightarrow> Call" where
  "free_call flags h = (if flags AND is_pinned \<noteq> 0 then hipHostFree h else free h)"

text \<open>The trace of the whole run of \<open>opts3\<close> on \<open>W_ok\<close>.\<close>

definition TR_main3 :: trace where
  "TR_main3 =
     TR_ready 1024 @
     [hipSetDevice 0, printf (Launch_direct HTOD 0 3 (Some 1)), hipEventRecord 4 6,
      hipMemcpyAsync 12 11 1024 hipMemcpyHostToDevice 6,
      hipSetDevice 0, hipMemcpyAsync 12 11 1024 hipMemcpyHostToDevice 6,
      hipSetDevice 0, hipMemcpyAsync 12 11 1024 hipMemcpyHostToDevice 6,
      hipEventRecord 5 6,
      hipSetDevice 0, hipDeviceSynchronize, printf Completed,
      hipSetDevice 0, hipEventElapsedTime 4 5, printf (Result_direct 0 HTOD 0 3),
      hipHostFree 11, free_transfers]"

text \<open>The preference in force after a trace: the argument of the last call of
  \<open>numa_set_preferred\<close>, which holds for the process until the next such call.\<close>

fun pref_step :: "int option \<Rightarrow> Call \<Rightarrow> int option" where
  "pref_step p (numa_set_preferred v) = Some v"
| "pref_step p c = p"

definition preference :: "trace \<Rightarrow> int option" where
  "preference tr = foldl pref_step None tr"

text \<open>A machine on which the topology file of device 1 cannot be opened, a command line
  with two host transfers, and the second transfer as \<open>--dtoh=1\<close> leaves it.\<close>

definition W_mixed :: World where
  "W_mixed = W_ok\<lparr>fopen_null := (\<lambda>p. p = numa_file \<lparr>pciDomainID = 0, pciBusID = 4\<rparr>)\<rparr>"

definition opts_two :: "(Opt \<times> string) list" where
  "opts_two = [(Opt_h, ''0''), (Opt_d, ''1''), (Opt_s, ''1024'')]"

definition T_dtoh :: Transfer where
  "T_dtoh = blank_transfer\<lparr>type := DTOH, device := 1, device2 := - 1\<rparr>"

definition T_dtoh_ready :: Transfer where
  "T_dtoh_ready =
     \<lparr>start = 15, stop = 16, device = 1, device2 = - 1, dest = 19, src = 20, stream = 17,
      type = DTOH, numa_node = - 1, is_started = False,
      prop_device = \<lparr>pciDomainID = 0, pciBusID = 4\<rparr>,
      prop_device2 = \<lparr>pciDomainID = 0, pciBusID = 0\<rparr>\<rparr>"

definition TR_dtoh_pre :: trace where
  "TR_dtoh_pre =
     [hipGetDeviceProperties 1, hipSetDevice 1, hipEventCreate, hipEventCreate,
      hipStreamCreateWithFlags, fopen ''/sys/class/pci_bus/0000:04/device/numa_node'']"

text \<open>A command line with a host-to-device and a peer-to-peer transfer, and the state in
  which \<open>init\<close> leaves the second one on \<open>W_ok\<close>.\<close>

definition opts_hp :: "(Opt \<times> string) list" where
  "opts_hp = [(Opt_h, ''0''), (Opt_p, ''1,0''), (Opt_i, ''2''), (Opt_s, ''1024'')]"

definition T_p2p_ready :: Transfer where
  "T_p2p_ready =
     \<lparr>start = 16, stop = 17, device = 1, device2 = 0, dest = 21, src = 24, stream = 18,
      type = DTOD, numa_node = - 1, is_started = False,
      prop_device = \<lparr>pciDomainID = 0, pciBusID = 4\<rparr>,
      prop_device2 = \<lparr>pciDomainID = 0, pciBusID = 3\<rparr>\<rparr>"

definition TR_ready_hp :: trace where
  "TR_ready_hp =
     TR_ready 1024 @
     [hipGetDeviceProperties 1, hipGetDeviceProperties 0, hipSetDevice 1, hipEventCreate,
      hipEventCreate, hipStreamCreateWithFlags, hipDeviceCanAccessPeer 1 0, hipSetDevice 1,
      hipMalloc 1024, hipDeviceEnablePeerAccess 0, hipSetDevice 0, hipMalloc 1024]"

definition TR_issued_hp :: trace where
  "TR_issued_hp =
     TR_ready_hp @
     [hipSetDevice 0, printf (Launch_direct HTOD 0 3 (Some 1)), hipEventRecord 4 6,
      hipMemcpyAsync 12 11 1024 hipMemcpyHostToDevice 6,
      hipSetDevice 1, printf (Launch_p2p 0 3 1 4), hipEventRecord 16 18,
      hipMemcpyPeerAsync 21 1 24 0 1024 18,
      hipSetDevice 0, hipMemcpyAsync 12 11 1024 hipMemcpyHostToDevice 6, hipEventRecord 5 6,
      hipSetDevice 1, hipMemcpyPeerAsync 21 1 24 0 1024 18, hipEventRecord 17 18]"

section \<open>Basic facts\<close>

lemma andThen_Inl [simp]: "andThen (Inl e) f = Inl e"
  by (simp add: andThen_def)

lemma andThen_Inr [simp]: "andThen (Inr (x, tr)) f = f x tr"
  by (simp add: andThen_def)

lemma andThen_eq_Inr:
  "andThen m f = Inr r \<longleftrightarrow> (\<exists>x tr. m = Inr (x, tr) \<and> f x tr = Inr r)"
  by (cases m) auto

lemma checkHip_eq_Inr:
  "checkHip w c tr = Inr (u, tr') \<longleftrightarrow> hip_ret w tr c = 0 \<and> tr' = tr @ [c]"
  by (auto simp: checkHip_def Let_def)

lemma trace_of_simps [simp]:
  "trace_of (Inl (h, tr)) = tr" "trace_of (Inr (x, tr)) = tr"
  by (simp_all add: trace_of_def)

lemma extends_Inr [simp]: "extends Q tr (Inr (x, tr))"
  by (simp add: extends_def)

lemma extends_Inr_app: "\<forall>c \<in> set new. Q c \<Longrightarrow> extends Q tr (Inr (x, tr @ new))"
  by (simp add: extends_def)

lemma extends_Inl_app: "\<forall>c \<in> set new. Q c \<Longrightarrow> extends Q tr (Inl (h, tr @ new))"
  by (simp add: extends_def)

lemma extends_andThen:
  assumes "extends Q tr m"
    and "\<And>x tr1. m = Inr (x, tr1) \<Longrightarrow> extends Q tr1 (f x tr1)"
  shows "extends Q tr (andThen m f)"
proof (cases m)
  case (Inl e)
  with assms(1) show ?thesis by (cases e) (simp add: extends_def)
next
  case (Inr p)
  obtain x tr1 where p: "p = (x, tr1)" by (cases p)
  from assms(1) Inr p obtain n1 where n1: "tr1 = tr @ n1" "\<forall>c \<in> set n1. Q c"
    by (auto simp: extends_def)
  from assms(2) Inr p obtain n2 where n2: "trace_of (f x tr1) = tr1 @ n2" "\<forall>c \<in> set n2. Q c"
    by (auto simp: extends_def)
  have "trace_of (andThen m f) = tr @ (n1 @ n2)"
    using Inr p n1 n2 by simp
  moreover have "\<forall>c \<in> set (n1 @ n2). Q c"
    using n1 n2 by auto
  ultimately show ?thesis
    unfolding extends_def by blast
qed

lemma extends_checkHip:
  "Q c \<Longrightarrow> (\<And>m. Q (fprintf_stderr m)) \<Longrightarrow> extends Q tr (checkHip w c tr)"
  by (simp add: checkHip_def Let_def extends_def)

lemma extends_app:
  "\<forall>c \<in> set new. Q c \<Longrightarrow> extends Q (tr @ new) r \<Longrightarrow> extends Q tr r"
  by (auto simp: extends_def)

lemma extends_mono:
  "extends Q tr r \<Longrightarrow> (\<And>c. Q c \<Longrightarrow> Q' c) \<Longrightarrow> extends Q' tr r"
  by (auto simp: extends_def)

lemma common_extends:
  assumes "\<And>d. Q (hipGetDeviceProperties d)" "\<And>d. Q (hipSetDevice d)" "Q hipEventCreate"
    "Q hipStreamCreateWithFlags" "\<And>m. Q (fprintf_stderr m)"
  shows "extends Q tr (transfer_init_common w t tr)"
  unfolding transfer_init_common_def Let_def
  by (intro extends_andThen extends_checkHip extends_Inr conjI impI assms | simp)+


lemma common_fields:
  assumes "transfer_init_common w t tr = Inr (t1, tr1)"
  shows "numa_node t1 = - 1" "\<not> is_started t1" "device t1 = device t" "device2 t1 = device2 t"
    "type t1 = type t" "prop_device t1 = device_prop w (device t)"
  using assms unfolding transfer_init_common_def Let_def
  by (auto simp: andThen_eq_Inr split: if_splits)

lemma numa_file_3:
  "numa_file \<lparr>pciDomainID = 0, pciBusID = 3\<rparr> = ''/sys/class/pci_bus/0000:03/device/numa_node''"
  by (simp add: numa_file_def hex_pad_def hex_digits.simps hex_char_def eval_nat_numeral)

lemmas model_defs = main_def init_def defaults_def transfer_init_def transfer_init_switch_def
  htod_transfer_init_def dtoh_transfer_init_def dtod_transfer_init_def transfer_init_common_def
  set_numa_affinity_def host_ptr_def checkHip_def direct_transfer_def dtod_transfer_def
  fini_def parse_opt_def strtol_def int_of_long_def size_t_of_long_def blank_transfer_def
  N_SIZE_MAX_def N_SIZE_DEFAULT_def N_ITER_DEFAULT_def is_numa_aware_def is_pinned_def
  EINVAL_def ERANGE_def LONG_MAX_def LONG_MIN_def isspace_def isdigit_def digit_val_def
  n_transfers_def EX_USAGE_def ARGP_ERR_UNKNOWN_def Let_def

section \<open>Sample runs\<close>

lemma init_opts3:
  "init W_ok opts3
     = Inr (\<lparr>transfer = [T_ready], n_iter = 3, n_size = 1024, alloc_flags = 3\<rparr>, TR_ready 1024)"
  by (simp add: model_defs opts3_def W_ok_def numa_file_3 T_ready_def TR_ready_def)

lemma init_opts_iter0:
  "init W_ok opts_iter0
     = Inr (\<lparr>transfer = [T_ready], n_iter = 0, n_size = 1073741824, alloc_flags = 3\<rparr>,
            TR_ready 1073741824)"
  by (simp add: model_defs opts_iter0_def W_ok_def numa_file_3 T_ready_def TR_ready_def)

lemma issue_loop_opts3:
  "issue_loop W_ok 3 1024 0 [T_ready] (TR_ready 1024)
     = Inr ([started T_ready],
            TR_ready 1024 @
            [hipSetDevice 0, printf (Launch_direct HTOD 0 3 (Some 1)), hipEventRecord 4 6,
             hipMemcpyAsync 12 11 1024 hipMemcpyHostToDevice 6,
             hipSetDevice 0, hipMemcpyAsync 12 11 1024 hipMemcpyHostToDevice 6,
             hipSetDevice 0, hipMemcpyAsync 12 11 1024 hipMemcpyHostToDevice 6,
             hipEventRecord 5 6])"
  by (simp add: issue_loop.simps direct_transfer_def checkHip_def W_ok_def T_ready_def
        started_def)

lemma numa_file_4:
  "numa_file \<lparr>pciDomainID = 0, pciBusID = 4\<rparr> = ''/sys/class/pci_bus/0000:04/device/numa_node''"
  by (simp add: numa_file_def hex_pad_def hex_digits.simps hex_char_def eval_nat_numeral)

lemma init_opts_two:
  "init W_mixed opts_two
     = Inr (\<lparr>transfer = [T_ready, T_dtoh_ready], n_iter = 100, n_size = 1024, alloc_flags = 3\<rparr>,
            TR_ready 1024 @ TR_dtoh_pre @ [hipHostMalloc 1024, hipMalloc 1024])"
  by (simp add: model_defs opts_two_def W_mixed_def W_ok_def numa_file_3 numa_file_4 T_ready_def
        TR_ready_def T_dtoh_ready_def TR_dtoh_pre_def)

lemma init_opts_hp:
  "init W_ok opts_hp
     = Inr (\<lparr>transfer = [T_ready, T_p2p_ready], n_iter = 2, n_size = 1024, alloc_flags = 3\<rparr>,
            TR_ready_hp)"
  by (simp add: model_defs opts_hp_def W_ok_def numa_file_3 strtok_comma.simps T_ready_def
        TR_ready_def T_p2p_ready_def TR_ready_hp_def)

lemma issue_loop_opts_hp:
  "issue_loop W_ok 2 1024 0 [T_ready, T_p2p_ready] TR_ready_hp
     = Inr ([started T_ready, started T_p2p_ready], TR_issued_hp)"
  by (simp add: issue_loop.simps direct_transfer_def dtod_transfer_def checkHip_def W_ok_def
        T_ready_def T_p2p_ready_def started_def TR_issued_hp_def)

lemma switch_dtoh_mixed:
  "transfer_init_switch W_mixed 1024 3 T_dtoh (TR_ready 1024)
     = Inr (T_dtoh_ready, TR_ready 1024 @ TR_dtoh_pre @ [hipHostMalloc 1024, hipMalloc 1024])"
  by (simp add: model_defs W_mixed_def W_ok_def numa_file_4 T_dtoh_def T_dtoh_ready_def
        TR_ready_def TR_dtoh_pre_def)

section \<open>NUMA placement of the host buffer\<close>

lemma set_numa_affinity_nofile:
  "fopen_null w (numa_file (prop_device t)) \<Longrightarrow>
   set_numa_affinity w t tr = (t, tr @ [fopen (numa_file (prop_device t))])"
  by (simp add: set_numa_affinity_def Let_def)

lemma extends_if:
  "(c \<Longrightarrow> extends Q tr a) \<Longrightarrow> (\<not> c \<Longrightarrow> extends Q tr b) \<Longrightarrow> extends Q tr (if c then a else b)"
  by simp

lemma host_init_rest_extends:
  assumes "\<And>n. Q (hipHostMalloc n)" "\<And>n. Q (malloc n)" "\<And>n. Q (hipMalloc n)"
    "\<And>m. Q (fprintf_stderr m)"
  shows "extends Q tr2
           (andThen (if flags AND is_pinned \<noteq> 0
              then andThen (checkHip w (hipHostMalloc n) tr2) (\<lambda>_ tr3. Inr (f1 tr2, tr3))
              else Inr (f2 tr2, tr2 @ [malloc n]))
           (\<lambda>t3 tr3. if g t3 = (0::nat) then Inl (Abort, tr3)
                else andThen (checkHip w (hipMalloc n) tr3) (\<lambda>_ tr4. Inr (k t3 tr4, tr4))))"
proof (rule extends_andThen)
  show "extends Q tr2 (if flags AND is_pinned \<noteq> 0
              then andThen (checkHip w (hipHostMalloc n) tr2) (\<lambda>_ tr3. Inr (f1 tr2, tr3))
              else Inr (f2 tr2, tr2 @ [malloc n]))"
    by (intro extends_if extends_andThen extends_checkHip extends_Inr extends_Inr_app)
       (simp_all add: assms)
next
  fix x tr1
  have "extends Q tr1 (andThen (checkHip w (hipMalloc n) tr1) (\<lambda>_ tr4. Inr (k x tr4, tr4)))"
    by (intro extends_andThen extends_checkHip extends_Inr) (simp_all add: assms)
  then show "extends Q tr1 (if g x = 0 then Inl (Abort, tr1)
        else andThen (checkHip w (hipMalloc n) tr1) (\<lambda>_ tr4. Inr (k x tr4, tr4)))"
    by (simp add: extends_def)
qed

lemma nofile_no_pref:
  assumes "type t = HTOD \<or> type t = DTOH"
    and "flags AND is_numa_aware \<noteq> 0"
    and "fopen_null w (numa_file (device_prop w (device t)))"
  shows "extends (\<lambda>c. \<not> is_numa_pref c) tr (transfer_init_switch w n flags t tr)"
proof -
  let ?Q = "\<lambda>c. \<not> is_numa_pref c"
  have step: "extends ?Q tr1
           (let (t2, tr2) = (if flags AND is_numa_aware \<noteq> 0 then set_numa_affinity w t1 tr1
                      else (t1, tr1)) in
            andThen (if flags AND is_pinned \<noteq> 0
              then andThen (checkHip w (hipHostMalloc n) tr2) (\<lambda>_ tr3. Inr (f1 t2 tr2, tr3))
              else Inr (f2 t2 tr2, tr2 @ [malloc n]))
           (\<lambda>t3 tr3. if g t3 = (0::nat) then Inl (Abort, tr3)
                else andThen (checkHip w (hipMalloc n) tr3) (\<lambda>_ tr4. Inr (k t3 tr4, tr4))))"
    if "transfer_init_common w t tr = Inr (t1, tr1)" for t1 tr1 f1 f2 g k
  proof -
    have "prop_device t1 = device_prop w (device t)"
      using that by (rule common_fields)
    then have eq: "set_numa_affinity w t1 tr1 = (t1, tr1 @ [fopen (numa_file (prop_device t1))])"
      using assms(3) by (simp add: set_numa_affinity_nofile)
    have "extends ?Q (tr1 @ [fopen (numa_file (prop_device t1))])
           (andThen (if flags AND is_pinned \<noteq> 0
              then andThen (checkHip w (hipHostMalloc n) (tr1 @ [fopen (numa_file (prop_device t1))]))
                     (\<lambda>_ tr3. Inr (f1 t1 (tr1 @ [fopen (numa_file (prop_device t1))]), tr3))
              else Inr (f2 t1 (tr1 @ [fopen (numa_file (prop_device t1))]),
                        (tr1 @ [fopen (numa_file (prop_device t1))]) @ [malloc n]))
           (\<lambda>t3 tr3. if g t3 = (0::nat) then Inl (Abort, tr3)
                else andThen (checkHip w (hipMalloc n) tr3) (\<lambda>_ tr4. Inr (k t3 tr4, tr4))))"
      by (rule host_init_rest_extends) simp_all
    then have "extends ?Q tr1
           (andThen (if flags AND is_pinned \<noteq> 0
              then andThen (checkHip w (hipHostMalloc n) (tr1 @ [fopen (numa_file (prop_device t1))]))
                     (\<lambda>_ tr3. Inr (f1 t1 (tr1 @ [fopen (numa_file (prop_device t1))]), tr3))
              else Inr (f2 t1 (tr1 @ [fopen (numa_file (prop_device t1))]),
                        (tr1 @ [fopen (numa_file (prop_device t1))]) @ [malloc n]))
           (\<lambda>t3 tr3. if g t3 = (0::nat) then Inl (Abort, tr3)
                else andThen (checkHip w (hipMalloc n) tr3) (\<lambda>_ tr4. Inr (k t3 tr4, tr4))))"
      by (rule extends_app [rotated]) simp
    then show ?thesis
      using assms(2) by (simp add: eq)
  qed
  have common: "extends ?Q tr (transfer_init_common w t tr)"
    by (rule common_extends) simp_all
  from assms(1) show ?thesis
  proof
    assume "type t = HTOD"
    then show ?thesis
      unfolding transfer_init_switch_def htod_transfer_init_def
      by (simp only: TransferType.case) (rule extends_andThen [OF common], rule step)
  next
    assume "type t = DTOH"
    then show ?thesis
      unfolding transfer_init_switch_def dtoh_transfer_init_def
      by (simp only: TransferType.case) (rule extends_andThen [OF common], rule step)
  qed
qed


lemma nofile_numa_node:
  assumes "type t = HTOD \<or> type t = DTOH"
    and "flags AND is_numa_aware \<noteq> 0"
    and "fopen_null w (numa_file (device_prop w (device t)))"
    and "transfer_init_switch w n flags t tr = Inr (t', tr')"
  shows "numa_node t' = - 1"
proof -
  from assms(1,4) obtain t1 tr1 where
    c: "transfer_init_common w t tr = Inr (t1, tr1)"
    by (auto simp: transfer_init_switch_def htod_transfer_init_def dtoh_transfer_init_def
          andThen_eq_Inr)
  have p: "prop_device t1 = device_prop w (device t)" and n: "numa_node t1 = - 1"
    using c by (rule common_fields)+
  have eq: "set_numa_affinity w t1 tr1 = (t1, tr1 @ [fopen (numa_file (prop_device t1))])"
    using assms(3) p by (simp add: set_numa_affinity_nofile)
  from assms(1,2,4) c n show ?thesis
    by (auto simp: transfer_init_switch_def htod_transfer_init_def dtoh_transfer_init_def
          andThen_eq_Inr eq split: if_splits)
qed

lemma common_all_ok:
  assumes "\<forall>h c. hip_ret w h c = 0"
  shows "\<exists>t1 new. transfer_init_common w t tr = Inr (t1, tr @ new)"
  using assms by (simp add: transfer_init_common_def checkHip_def Let_def)

lemma nofile_completes:
  assumes "type t = HTOD \<or> type t = DTOH"
    and "flags AND is_numa_aware \<noteq> 0"
    and "fopen_null w (numa_file (device_prop w (device t)))"
    and ok: "\<forall>h c. hip_ret w h c = 0" "\<forall>h c. \<not> alloc_null w h c"
  shows "\<exists>t' new. transfer_init_switch w n flags t tr = Inr (t', tr @ new)
           \<and> (if flags AND is_pinned \<noteq> 0 then hipHostMalloc n else malloc n) \<in> set new
           \<and> hipMalloc n \<in> set new"
proof -
  from common_all_ok [OF ok(1)] obtain t1 new1 where
    c: "transfer_init_common w t tr = Inr (t1, tr @ new1)"
    by blast
  have p: "prop_device t1 = device_prop w (device t)"
    using c by (rule common_fields)
  have eq: "set_numa_affinity w t1 (tr @ new1)
      = (t1, (tr @ new1) @ [fopen (numa_file (prop_device t1))])"
    using assms(3) p by (simp add: set_numa_affinity_nofile)
  from assms(1) show ?thesis
    using assms(2) ok c
    by (auto simp: transfer_init_switch_def htod_transfer_init_def dtoh_transfer_init_def
          eq checkHip_def host_ptr_def)
qed

lemma preference_append_none:
  "\<forall>c \<in> set new. \<not> is_numa_pref c \<Longrightarrow> preference (tr @ new) = preference tr"
proof (induction new rule: rev_induct)
  case Nil
  then show ?case by simp
next
  case (snoc c new)
  then have "preference (tr @ new) = preference tr" and "\<not> is_numa_pref c"
    by simp_all
  then show ?case
    by (cases c) (simp_all add: preference_def)
qed

lemma nofile_shape:
  assumes "type t = HTOD \<or> type t = DTOH"
    and "flags AND is_numa_aware \<noteq> 0"
    and "fopen_null w (numa_file (device_prop w (device t)))"
    and "transfer_init_switch w n flags t tr = Inr (t', tr')"
  shows "\<exists>pre. tr' = tr @ pre @ [if flags AND is_pinned \<noteq> 0 then hipHostMalloc n else malloc n,
                                  hipMalloc n]
           \<and> preference (tr @ pre) = preference tr"
proof -
  from assms(1,4) obtain t1 tr1 where
    c: "transfer_init_common w t tr = Inr (t1, tr1)"
    by (auto simp: transfer_init_switch_def htod_transfer_init_def dtoh_transfer_init_def
          andThen_eq_Inr)
  have p: "prop_device t1 = device_prop w (device t)"
    using c by (rule common_fields)
  have eq: "set_numa_affinity w t1 tr1 = (t1, tr1 @ [fopen (numa_file (prop_device t1))])"
    using assms(3) p by (simp add: set_numa_affinity_nofile)
  have "extends (\<lambda>c. \<not> is_numa_pref c) tr (transfer_init_common w t tr)"
    by (rule common_extends) simp_all
  with c obtain cn where cn: "tr1 = tr @ cn" "\<forall>c \<in> set cn. \<not> is_numa_pref c"
    by (auto simp: extends_def)
  let ?pre = "cn @ [fopen (numa_file (prop_device t1))]"
  from assms(1,2,4) c have
    "tr' = tr1 @ [fopen (numa_file (prop_device t1)),
                  if flags AND is_pinned \<noteq> 0 then hipHostMalloc n else malloc n, hipMalloc n]"
    by (auto simp: transfer_init_switch_def htod_transfer_init_def dtoh_transfer_init_def
          andThen_eq_Inr checkHip_eq_Inr eq split: if_splits)
  then have "tr' = tr @ ?pre @ [if flags AND is_pinned \<noteq> 0 then hipHostMalloc n else malloc n,
                                hipMalloc n]"
    using cn(1) by simp
  moreover have "preference (tr @ ?pre) = preference tr"
    by (rule preference_append_none) (use cn(2) in simp)
  ultimately show ?thesis by blast
qed

text \<open>
  C4 (as amended).  A host-to-device or device-to-host transfer is initialised with the
  NUMA-aware flag set, and the topology file of its device cannot be opened.  Then the
  initialisation makes no call of \<open>numa_set_preferred\<close>, whatever the outcome.  When it
  completes, the field \<open>numa_node\<close> still holds -1, the value it is given at the start,
  and the host buffer and then the device buffer have been allocated, the host buffer
  under the preference that was in force before this initialisation: the one set for
  an earlier transfer if there is one, none otherwise.  The failed lookup is no error:
  when every runtime call succeeds and the host allocation is not null, the
  initialisation completes.
\<close>

theorem numa_lookup_failure_is_soft:
  assumes "type t = HTOD \<or> type t = DTOH"
    and "flags AND is_numa_aware \<noteq> 0"
    and "fopen_null w (numa_file (device_prop w (device t)))"
  shows "(\<exists>new. trace_of (transfer_init_switch w n flags t tr) = tr @ new
            \<and> (\<forall>c \<in> set new. \<not> is_numa_pref c))
       \<and> (\<forall>t' tr'. transfer_init_switch w n flags t tr = Inr (t', tr') \<longrightarrow>
            numa_node t' = - 1
          \<and> (\<exists>pre. tr' = tr @ pre @ [if flags AND is_pinned \<noteq> 0 then hipHostMalloc n
                                       else malloc n, hipMalloc n]
                \<and> preference (tr @ pre) = preference tr))
       \<and> ((\<forall>h c. hip_ret w h c = 0) \<and> (\<forall>h c. \<not> alloc_null w h c) \<longrightarrow>
            (\<exists>t' tr'. transfer_init_switch w n flags t tr = Inr (t', tr')))"
proof -
  have "\<exists>t' tr'. transfer_init_switch w n flags t tr = Inr (t', tr')"
    if "(\<forall>h c. hip_ret w h c = 0) \<and> (\<forall>h c. \<not> alloc_null w h c)"
    using nofile_completes [OF assms, of n tr] that by blast
  with nofile_no_pref [OF assms, of tr n] nofile_numa_node [OF assms, of n tr]
    nofile_shape [OF assms, of n tr]
  show ?thesis
    unfolding extends_def by blast
qed

theorem numa_lookup_failure_is_soft_witness:
  "(type T_dtoh = HTOD \<or> type T_dtoh = DTOH) \<and> (3::int) AND is_numa_aware \<noteq> 0
   \<and> fopen_null W_mixed (numa_file (device_prop W_mixed (device T_dtoh)))
   \<and> transfer_init_switch W_mixed 1024 3 T_dtoh (TR_ready 1024)
       = Inr (T_dtoh_ready, TR_ready 1024 @ TR_dtoh_pre @ [hipHostMalloc 1024, hipMalloc 1024])
   \<and> numa_node T_dtoh_ready = - 1
   \<and> filter is_numa_pref (TR_dtoh_pre @ [hipHostMalloc 1024, hipMalloc 1024]) = []
   \<and> preference (TR_ready 1024 @ TR_dtoh_pre) = preference (TR_ready 1024)"
proof -
  have h1: "type T_dtoh = HTOD \<or> type T_dtoh = DTOH"
    by (simp add: T_dtoh_def)
  have h2: "(3::int) AND is_numa_aware \<noteq> 0"
    by (simp add: is_numa_aware_def)
  have h3: "fopen_null W_mixed (numa_file (device_prop W_mixed (device T_dtoh)))"
    by (simp add: W_mixed_def W_ok_def T_dtoh_def)
  have p: "(3::int) AND is_pinned \<noteq> 0"
    by (simp add: is_pinned_def)
  from numa_lookup_failure_is_soft [OF h1 h2 h3, where tr = "TR_ready 1024" and n = 1024]
    switch_dtoh_mixed h1 h2 h3 p
  show ?thesis
    by (auto simp: trace_of_def)
qed

text \<open>With two host transfers, the lookup of the first succeeding and that of the second
  failing, the host buffer of the second is allocated while the preference set for the
  first is in force.\<close>

theorem numa_preference_persists_counterexample:
  "fopen_null W_mixed (numa_file (device_prop W_mixed 1))
   \<and> init W_mixed opts_two
       = Inr (\<lparr>transfer = [T_ready, T_dtoh_ready], n_iter = 100, n_size = 1024,
               alloc_flags = 3\<rparr>,
              TR_ready 1024 @ TR_dtoh_pre @ [hipHostMalloc 1024, hipMalloc 1024])
   \<and> device T_dtoh_ready = 1
   \<and> preference (TR_ready 1024 @ TR_dtoh_pre) = Some 1"
  using init_opts_two
  by (simp add: W_mixed_def W_ok_def T_dtoh_ready_def preference_def TR_ready_def TR_dtoh_pre_def)

text \<open>
  C10.  When the topology file opens and \<open>fscanf\<close> converts an integer \<open>v\<close>, then
  \<open>numa_node\<close> becomes \<open>v\<close> and \<open>numa_set_preferred v\<close> is called, whatever \<open>v\<close> is.
  For \<open>v = -1\<close> the transfer is left exactly as it was before the lookup (where
  \<open>numa_node\<close> is -1), and the preference call is made all the same.
\<close>

theorem numa_preference_unconditional:
  assumes "\<not> fopen_null w (numa_file (prop_device t))"
    and "fscanf_d w (numa_file (prop_device t)) = Some v"
  shows "set_numa_affinity w t tr =
           (t\<lparr>numa_node := v\<rparr>,
            tr @ [fopen (numa_file (prop_device t)), fscanf, fclose, numa_set_preferred v])
         \<and> (v = - 1 \<longrightarrow> numa_node t = - 1 \<longrightarrow> fst (set_numa_affinity w t tr) = t)"
  using assms by (simp add: set_numa_affinity_def Let_def)


theorem numa_preference_unconditional_witness:
  "\<not> fopen_null W_minus1 (numa_file (prop_device (T_htod\<lparr>numa_node := - 1\<rparr>)))
   \<and> fscanf_d W_minus1 (numa_file (prop_device (T_htod\<lparr>numa_node := - 1\<rparr>))) = Some (- 1)
   \<and> set_numa_affinity W_minus1 (T_htod\<lparr>numa_node := - 1\<rparr>) []
       = (T_htod\<lparr>numa_node := - 1\<rparr>,
          [fopen (numa_file (prop_device (T_htod\<lparr>numa_node := - 1\<rparr>))), fscanf, fclose,
           numa_set_preferred (- 1)])"
proof -
  have h1: "\<not> fopen_null W_minus1 (numa_file (prop_device (T_htod\<lparr>numa_node := - 1\<rparr>)))"
    by (simp add: W_minus1_def W_ok_def)
  have h2: "fscanf_d W_minus1 (numa_file (prop_device (T_htod\<lparr>numa_node := - 1\<rparr>))) = Some (- 1)"
    by (simp add: W_minus1_def)
  from numa_preference_unconditional [OF h1 h2, of "[]"] h1 h2 show ?thesis
    by simp
qed

section \<open>Command-line options\<close>

lemma strtol_value_indep: "fst (strtol s e) = fst (strtol s e')"
  by (simp add: strtol_def Let_def)

text \<open>
  C9.  A \<open>--size\<close> argument that \<open>strtol\<close> converts to a negative value, without
  a range error, is accepted: the parser returns 0 with \<open>n_size\<close> set to that value and
  prints nothing.  The test of the error branch reads \<open>errno\<close> and \<open>n_iter\<close>, which is
  not negative, and not \<open>n_size\<close>.
\<close>

theorem negative_size_accepted:
  assumes "strtol arg errno = (v, endp, errno1)"
    and "v < 0" and "errno1 \<noteq> EINVAL" and "errno1 \<noteq> ERANGE" and "0 \<le> n_iter hits"
  shows "parse_opt (Key Opt_s) arg hits errno tr = Inr ((0, hits\<lparr>n_size := v\<rparr>, errno1), tr)"
  using assms by (simp add: parse_opt_def N_SIZE_MAX_def)

theorem negative_size_accepted_witness:
  "strtol ''-5'' 0 = (- 5, 2, 0) \<and> (- 5 :: int) < 0 \<and> (0::int) \<noteq> EINVAL \<and> (0::int) \<noteq> ERANGE
   \<and> 0 \<le> n_iter defaults
   \<and> parse_opt (Key Opt_s) ''-5'' defaults 0 [] = Inr ((0, defaults\<lparr>n_size := - 5\<rparr>, 0), [])"
proof -
  have h1: "strtol ''-5'' 0 = (- 5, 2, 0)"
    by (simp add: strtol_def isspace_def isdigit_def digit_val_def LONG_MAX_def LONG_MIN_def)
  have h2: "(- 5 :: int) < 0" by simp
  have h3: "(0::int) \<noteq> EINVAL" by (simp add: EINVAL_def)
  have h4: "(0::int) \<noteq> ERANGE" by (simp add: ERANGE_def)
  have h5: "0 \<le> n_iter defaults" by (simp add: defaults_def N_ITER_DEFAULT_def)
  from negative_size_accepted [OF h1 h2 h3 h4 h5, of "[]"] h1 h2 h3 h4 h5 show ?thesis
    by simp
qed

lemma parse_opt_option_outcome:
  "(\<exists>m. parse_opt (Key k) a h e tr = Inl (Exit 1, tr @ [fprintf_stderr m]))
   \<or> (\<exists>x. parse_opt (Key k) a h e tr = Inr (x, tr))"
  by (cases k) (auto simp: parse_opt_def Let_def split: prod.splits list.splits)

lemma parse_opt_oversize:
  assumes "N_SIZE_MAX < fst (strtol arg 0)"
  shows "parse_opt (Key Opt_s) arg h e tr = Inl (Exit 1, tr @ [fprintf_stderr Err_size_parse])
       \<or> parse_opt (Key Opt_s) arg h e tr = Inl (Exit 1, tr @ [fprintf_stderr Err_size_max])"
proof -
  have "N_SIZE_MAX < fst (strtol arg e)"
    using assms strtol_value_indep [of arg e 0] by simp
  then show ?thesis
    by (auto simp: parse_opt_def Let_def split: prod.splits)
qed

lemma argp_parse_oversize:
  assumes "(Opt_s, arg) \<in> set opts" and "N_SIZE_MAX < fst (strtol arg 0)"
  shows "\<exists>m. argp_parse opts h e tr = Inl (Exit 1, tr @ [fprintf_stderr m])"
  using assms(1)
proof (induction opts arbitrary: h e)
  case Nil
  then show ?case by simp
next
  case (Cons ka rest)
  obtain k a where ka: "ka = (k, a)" by (cases ka)
  from parse_opt_option_outcome [of k a h e tr] show ?case
  proof
    assume "\<exists>m. parse_opt (Key k) a h e tr = Inl (Exit 1, tr @ [fprintf_stderr m])"
    then show ?thesis using ka by auto
  next
    assume "\<exists>x. parse_opt (Key k) a h e tr = Inr (x, tr)"
    then obtain r h' e' where c: "parse_opt (Key k) a h e tr = Inr ((r, h', e'), tr)"
      by (metis prod_cases3)
    have "(k, a) \<noteq> (Opt_s, arg)"
      using parse_opt_oversize [OF assms(2), of h e tr] c by auto
    with Cons.prems ka have "(Opt_s, arg) \<in> set rest" by auto
    from Cons.IH [OF this, of h' e'] show ?thesis
      using ka c by simp
  qed
qed

lemma parse_opt_keeps_size:
  assumes "parse_opt (Key k) a h e tr = Inr ((r, h', e'), tr')" and "k \<noteq> Opt_s"
  shows "n_size h' = n_size h"
  using assms
  by (cases k) (auto simp: parse_opt_def Let_def split: prod.splits list.splits if_splits)

lemma argp_parse_keeps_size:
  assumes "argp_parse opts h e tr = Inr ((h', e'), tr')" and "Opt_s \<notin> fst ` set opts"
  shows "n_size h' = n_size h"
  using assms
proof (induction opts arbitrary: h e tr)
  case Nil
  then show ?case
    by (auto simp: parse_opt_def andThen_eq_Inr split: if_splits)
next
  case (Cons ka rest)
  obtain k a where ka: "ka = (k, a)" by (cases ka)
  from Cons.prems(1) ka obtain r h1 e1 tr1 where
    s: "parse_opt (Key k) a h e tr = Inr ((r, h1, e1), tr1)"
    and n: "argp_parse rest h1 e1 tr1 = Inr ((h', e'), tr')"
    by (auto simp: andThen_eq_Inr)
  from Cons.prems(2) ka have "k \<noteq> Opt_s" and "Opt_s \<notin> fst ` set rest"
    by auto
  with Cons.IH [OF n] parse_opt_keeps_size [OF s] show ?case
    by simp
qed

lemma init_keeps_default:
  assumes "init w opts = Inr (hits, tr)" and "Opt_s \<notin> fst ` set opts"
  shows "n_size hits = 1073741824"
proof -
  from assms(1) obtain h0 e0 tr1 where
    a: "argp_parse opts defaults 0 [malloc_transfers] = Inr ((h0, e0), tr1)"
    and t: "transfer_init w h0 tr1 = Inr (hits, tr)"
    by (auto simp: init_def Let_def andThen_eq_Inr split: if_splits)
  from t have "n_size hits = n_size h0"
    by (auto simp: transfer_init_def andThen_eq_Inr)
  with argp_parse_keeps_size [OF a assms(2)] show ?thesis
    by (simp add: defaults_def N_SIZE_DEFAULT_def N_SIZE_MAX_def)
qed

text \<open>
  C8.  The default of \<open>n_size\<close> is 1073741824: \<open>init\<close>, when it completes on a command
  line without a \<open>--size\<close> option, leaves \<open>n_size\<close> at that value.  A \<open>--size\<close> argument
  whose value exceeds \<open>N_SIZE_MAX\<close> makes the parser print an error and exit with status
  1; the whole of \<open>init\<close> then ends with status 1 when the trace holds nothing but the
  allocation of the array of slots and one error message: no event, stream or buffer
  has been created.
\<close>

theorem oversize_rejected:
  assumes "(Opt_s, arg) \<in> set opts" and "N_SIZE_MAX < fst (strtol arg 0)"
  shows "n_size defaults = 1073741824
       \<and> (\<forall>opts' h' e' tr tr'. Opt_s \<notin> fst ` set opts' \<longrightarrow>
             argp_parse opts' defaults 0 tr = Inr ((h', e'), tr') \<longrightarrow> n_size h' = 1073741824)
       \<and> (\<forall>w' opts' hits tr. Opt_s \<notin> fst ` set opts' \<longrightarrow>
             init w' opts' = Inr (hits, tr) \<longrightarrow> n_size hits = 1073741824)
       \<and> (\<forall>h e tr.
             parse_opt (Key Opt_s) arg h e tr = Inl (Exit 1, tr @ [fprintf_stderr Err_size_parse])
           \<or> parse_opt (Key Opt_s) arg h e tr = Inl (Exit 1, tr @ [fprintf_stderr Err_size_max]))
       \<and> (\<exists>m. init w opts = Inl (Exit 1, [malloc_transfers, fprintf_stderr m]))"
proof -
  have d: "n_size defaults = 1073741824"
    by (simp add: defaults_def N_SIZE_DEFAULT_def N_SIZE_MAX_def)
  have "\<exists>m. init w opts = Inl (Exit 1, [malloc_transfers, fprintf_stderr m])"
    using argp_parse_oversize [OF assms, of defaults 0 "[malloc_transfers]"]
    by (auto simp: init_def Let_def)
  with d parse_opt_oversize [OF assms(2)] argp_parse_keeps_size [where h = defaults]
    init_keeps_default
  show ?thesis
    by metis
qed

theorem oversize_rejected_witness:
  "(Opt_s, ''1073741825'') \<in> set [(Opt_h, ''0''), (Opt_s, ''1073741825'')]
   \<and> N_SIZE_MAX < fst (strtol ''1073741825'' 0)
   \<and> init W_ok [(Opt_h, ''0''), (Opt_s, ''1073741825'')]
        = Inl (Exit 1, [malloc_transfers, fprintf_stderr Err_size_max])
   \<and> Opt_s \<notin> fst ` set opts_iter0
   \<and> init W_ok opts_iter0
        = Inr (\<lparr>transfer = [T_ready], n_iter = 0, n_size = 1073741824, alloc_flags = 3\<rparr>,
               TR_ready 1073741824)"
proof -
  have h1: "(Opt_s, ''1073741825'') \<in> set [(Opt_h, ''0''), (Opt_s, ''1073741825'')]"
    by simp
  have h2: "N_SIZE_MAX < fst (strtol ''1073741825'' 0)"
    by (simp add: model_defs)
  have h3: "Opt_s \<notin> fst ` set opts_iter0"
    by (simp add: opts_iter0_def)
  from oversize_rejected [OF h1 h2, of W_ok] h1 h2 h3 init_opts_iter0 show ?thesis
    by (simp add: model_defs W_ok_def)
qed

section \<open>Peer-to-peer initialisation\<close>

lemma extends_True_tail:
  "extends (\<lambda>c. True) (tr @ [q]) r \<Longrightarrow> \<exists>more. trace_of r = tr @ q # more"
  by (auto simp: extends_def)

lemma dtod_tail_extends:
  assumes "\<And>d. Q (hipSetDevice d)" "\<And>n. Q (hipMalloc n)" "\<And>d. Q (hipDeviceEnablePeerAccess d)"
    "\<And>m. Q (fprintf_stderr m)"
  shows "extends Q tr2
       (andThen (checkHip w (hipSetDevice (device t1)) tr2) (\<lambda>_ tr3.
        andThen (checkHip w (hipMalloc n_bytes) tr3) (\<lambda>_ tr4.
        let t2 = t1\<lparr>dest := length tr4\<rparr> in
        andThen (checkHip w (hipDeviceEnablePeerAccess (device2 t2)) tr4) (\<lambda>_ tr5.
        andThen (checkHip w (hipSetDevice (device2 t2)) tr5) (\<lambda>_ tr6.
        andThen (checkHip w (hipMalloc n_bytes) tr6) (\<lambda>_ tr7.
        Inr (t2\<lparr>src := length tr7\<rparr>, tr7)))))))"
  unfolding Let_def
  by (intro extends_andThen extends_checkHip extends_Inr assms)

lemma dtod_nopeer:
  assumes "peer_access w (device t) (device2 t) = 0"
  shows "\<exists>h new. dtod_transfer_init w t n tr = Inl (h, tr @ new)
           \<and> (\<forall>c \<in> set new. \<not> is_buffer_alloc c)
           \<and> (hipDeviceCanAccessPeer (device t) (device2 t) \<in> set new \<longrightarrow> h = Exit 1)"
proof (cases "transfer_init_common w t tr")
  case (Inl e)
  obtain h tr1 where e: "e = (h, tr1)" by (cases e)
  have "extends (\<lambda>c. \<not> is_buffer_alloc c \<and> c \<noteq> hipDeviceCanAccessPeer (device t) (device2 t)) tr
          (transfer_init_common w t tr)"
    by (rule common_extends) simp_all
  with Inl e obtain new where "tr1 = tr @ new"
    "\<forall>c \<in> set new. \<not> is_buffer_alloc c \<and> c \<noteq> hipDeviceCanAccessPeer (device t) (device2 t)"
    by (auto simp: extends_def)
  then show ?thesis
    using Inl e by (auto simp: dtod_transfer_init_def)
next
  case (Inr p)
  obtain t1 tr1 where p: "p = (t1, tr1)" by (cases p)
  have d: "device t1 = device t" "device2 t1 = device2 t"
    using Inr p by (auto dest: common_fields)
  have "extends (\<lambda>c. \<not> is_buffer_alloc c) tr (transfer_init_common w t tr)"
    by (rule common_extends) simp_all
  with Inr p obtain new where "tr1 = tr @ new" "\<forall>c \<in> set new. \<not> is_buffer_alloc c"
    by (auto simp: extends_def)
  then show ?thesis
    using Inr p d assms by (simp add: dtod_transfer_init_def Let_def)
qed

lemma dtod_query_first:
  "\<exists>pre post. trace_of (dtod_transfer_init w t n tr) = tr @ pre @ post
      \<and> (\<forall>c \<in> set pre. \<not> is_buffer_alloc c)
      \<and> (post = [] \<or> hd post = hipDeviceCanAccessPeer (device t) (device2 t))"
proof -
  have ce: "extends (\<lambda>c. \<not> is_buffer_alloc c) tr (transfer_init_common w t tr)"
    by (rule common_extends) simp_all
  show ?thesis
  proof (cases "transfer_init_common w t tr")
    case (Inl e)
    obtain h tr1 where e: "e = (h, tr1)" by (cases e)
    from ce Inl e obtain new where "tr1 = tr @ new" "\<forall>c \<in> set new. \<not> is_buffer_alloc c"
      by (auto simp: extends_def)
    then have "trace_of (dtod_transfer_init w t n tr) = tr @ new @ []
        \<and> (\<forall>c \<in> set new. \<not> is_buffer_alloc c)"
      using Inl e by (simp add: dtod_transfer_init_def)
    then show ?thesis by blast
  next
    case (Inr p)
    obtain t1 tr1 where p: "p = (t1, tr1)" by (cases p)
    have d: "device t1 = device t" "device2 t1 = device2 t"
      using Inr p by (auto dest: common_fields)
    from ce Inr p obtain new where new: "tr1 = tr @ new" "\<forall>c \<in> set new. \<not> is_buffer_alloc c"
      by (auto simp: extends_def)
    let ?q = "hipDeviceCanAccessPeer (device t) (device2 t)"
    have "extends (\<lambda>c. True) (tr1 @ [?q])
       (andThen (checkHip w (hipSetDevice (device t1)) (tr1 @ [?q])) (\<lambda>_ tr3.
        andThen (checkHip w (hipMalloc n) tr3) (\<lambda>_ tr4.
        let t2 = t1\<lparr>dest := length tr4\<rparr> in
        andThen (checkHip w (hipDeviceEnablePeerAccess (device2 t2)) tr4) (\<lambda>_ tr5.
        andThen (checkHip w (hipSetDevice (device2 t2)) tr5) (\<lambda>_ tr6.
        andThen (checkHip w (hipMalloc n) tr6) (\<lambda>_ tr7.
        Inr (t2\<lparr>src := length tr7\<rparr>, tr7)))))))"
      by (rule dtod_tail_extends) simp_all
    from extends_True_tail [OF this] obtain more where
      "trace_of (andThen (checkHip w (hipSetDevice (device t1)) (tr1 @ [?q])) (\<lambda>_ tr3.
        andThen (checkHip w (hipMalloc n) tr3) (\<lambda>_ tr4.
        let t2 = t1\<lparr>dest := length tr4\<rparr> in
        andThen (checkHip w (hipDeviceEnablePeerAccess (device2 t2)) tr4) (\<lambda>_ tr5.
        andThen (checkHip w (hipSetDevice (device2 t2)) tr5) (\<lambda>_ tr6.
        andThen (checkHip w (hipMalloc n) tr6) (\<lambda>_ tr7.
        Inr (t2\<lparr>src := length tr7\<rparr>, tr7))))))) = tr1 @ ?q # more"
      by blast
    then have "\<exists>post. trace_of (dtod_transfer_init w t n tr) = tr @ new @ ?q # post"
      using Inr p d new by (simp add: dtod_transfer_init_def Let_def)
    then obtain post where "trace_of (dtod_transfer_init w t n tr) = tr @ new @ (?q # post)"
      by blast
    moreover have "hd (?q # post) = ?q" by simp
    ultimately show ?thesis using new(2) by blast
  qed
qed

lemma dtod_nopeer_exit:
  assumes "transfer_init_common w t tr = Inr (t1, tr1)"
    and "peer_access w (device t) (device2 t) = 0"
  shows "dtod_transfer_init w t n tr
           = Inl (Exit 1, tr1 @ [hipDeviceCanAccessPeer (device t) (device2 t),
                                 fprintf_stderr (Err_p2p (device t) (device2 t))])"
  using assms common_fields(3,4) [OF assms(1)]
  by (simp add: dtod_transfer_init_def Let_def)

lemma dtod_peer_ok:
  assumes "transfer_init_common w t tr = Inr (t1, tr1)"
    and "peer_access w (device t) (device2 t) \<noteq> 0"
    and "\<forall>h c. hip_ret w h c = 0"
  shows "\<exists>t'. dtod_transfer_init w t n tr
           = Inr (t', tr1 @ [hipDeviceCanAccessPeer (device t) (device2 t),
                             hipSetDevice (device t), hipMalloc n,
                             hipDeviceEnablePeerAccess (device2 t),
                             hipSetDevice (device2 t), hipMalloc n])"
  using assms common_fields(3,4) [OF assms(1)]
  by (simp add: dtod_transfer_init_def Let_def checkHip_def)

text \<open>
  C2.  In the initialisation of a device-to-device transfer, every call made before the
  peer-access query allocates no buffer, so that any buffer allocation comes after the
  query.  When the query leaves 0 in \<open>is_access\<close>, the initialisation never completes
  and allocates no buffer; when the common initialisation has succeeded, the query is
  made, the error is printed and the process exits with status 1.  When \<open>is_access\<close> is
  not 0 and the runtime calls succeed, both buffers are allocated after the query.  The
  common initialisation succeeds, without allocating a buffer, when the runtime calls
  succeed.
\<close>

theorem peer_check_before_allocation:
  "(\<exists>pre post. trace_of (dtod_transfer_init w t n tr) = tr @ pre @ post
      \<and> (\<forall>c \<in> set pre. \<not> is_buffer_alloc c)
      \<and> (post = [] \<or> hd post = hipDeviceCanAccessPeer (device t) (device2 t)))
   \<and> (peer_access w (device t) (device2 t) = 0 \<longrightarrow>
        (\<exists>h new. dtod_transfer_init w t n tr = Inl (h, tr @ new)
           \<and> (\<forall>c \<in> set new. \<not> is_buffer_alloc c)
           \<and> (hipDeviceCanAccessPeer (device t) (device2 t) \<in> set new \<longrightarrow> h = Exit 1)))
   \<and> (\<forall>t1 tr1. transfer_init_common w t tr = Inr (t1, tr1) \<longrightarrow>
         peer_access w (device t) (device2 t) = 0 \<longrightarrow>
         dtod_transfer_init w t n tr
           = Inl (Exit 1, tr1 @ [hipDeviceCanAccessPeer (device t) (device2 t),
                                 fprintf_stderr (Err_p2p (device t) (device2 t))]))
   \<and> (\<forall>t1 tr1. transfer_init_common w t tr = Inr (t1, tr1) \<longrightarrow>
         peer_access w (device t) (device2 t) \<noteq> 0 \<longrightarrow> (\<forall>h c. hip_ret w h c = 0) \<longrightarrow>
         (\<exists>t'. dtod_transfer_init w t n tr
           = Inr (t', tr1 @ [hipDeviceCanAccessPeer (device t) (device2 t),
                             hipSetDevice (device t), hipMalloc n,
                             hipDeviceEnablePeerAccess (device2 t),
                             hipSetDevice (device2 t), hipMalloc n])))
   \<and> ((\<forall>h c. hip_ret w h c = 0) \<longrightarrow>
         (\<exists>t1 new. transfer_init_common w t tr = Inr (t1, tr @ new)
            \<and> (\<forall>c \<in> set new. \<not> is_buffer_alloc c)))"
proof -
  have "\<exists>t1 new. transfer_init_common w t tr = Inr (t1, tr @ new)
            \<and> (\<forall>c \<in> set new. \<not> is_buffer_alloc c)" if ok: "\<forall>h c. hip_ret w h c = 0"
  proof -
    from common_all_ok [OF ok, of t tr] obtain t1 new where
      c: "transfer_init_common w t tr = Inr (t1, tr @ new)" by blast
    have "extends (\<lambda>c. \<not> is_buffer_alloc c) tr (transfer_init_common w t tr)"
      by (rule common_extends) simp_all
    with c show ?thesis by (auto simp: extends_def)
  qed
  with dtod_query_first [of w t n tr] dtod_nopeer [of w t n tr]
    dtod_nopeer_exit [of w t tr _ _ n] dtod_peer_ok [of w t tr _ _ n]
  show ?thesis by blast
qed

theorem peer_check_before_allocation_witness:
  "peer_access W_nopeer (device T_dtod) (device2 T_dtod) = 0
   \<and> transfer_init_common W_nopeer T_dtod []
       = Inr (T_dtod\<lparr>numa_node := - 1, prop_device := \<lparr>pciDomainID = 0, pciBusID = 4\<rparr>,
                     prop_device2 := \<lparr>pciDomainID = 0, pciBusID = 3\<rparr>,
                     start := 4, stop := 5, stream := 6\<rparr>,
              [hipGetDeviceProperties 1, hipGetDeviceProperties 0, hipSetDevice 1,
               hipEventCreate, hipEventCreate, hipStreamCreateWithFlags])
   \<and> dtod_transfer_init W_nopeer T_dtod 1024 []
       = Inl (Exit 1, [hipGetDeviceProperties 1, hipGetDeviceProperties 0, hipSetDevice 1,
            hipEventCreate, hipEventCreate, hipStreamCreateWithFlags,
            hipDeviceCanAccessPeer 1 0, fprintf_stderr (Err_p2p 1 0)])"
proof -
  have h: "peer_access W_nopeer (device T_dtod) (device2 T_dtod) = 0"
    by (simp add: W_nopeer_def)
  have c: "transfer_init_common W_nopeer T_dtod []
       = Inr (T_dtod\<lparr>numa_node := - 1, prop_device := \<lparr>pciDomainID = 0, pciBusID = 4\<rparr>,
                     prop_device2 := \<lparr>pciDomainID = 0, pciBusID = 3\<rparr>,
                     start := 4, stop := 5, stream := 6\<rparr>,
              [hipGetDeviceProperties 1, hipGetDeviceProperties 0, hipSetDevice 1,
               hipEventCreate, hipEventCreate, hipStreamCreateWithFlags])"
    by (simp add: transfer_init_common_def checkHip_def W_nopeer_def W_ok_def T_dtod_def
          blank_transfer_def)
  from peer_check_before_allocation [of W_nopeer T_dtod 1024 "[]"] h c show ?thesis
    by (simp add: T_dtod_def)
qed

section \<open>The issue loop\<close>

lemma issue_step:
  assumes "(if type t = DTOD then dtod_transfer w t nb l tr else direct_transfer w t nb l tr)
             = Inr (t', tr')"
  shows "t' = started t" and "tr' = tr @ step_calls nb l t"
  using assms
  by (auto simp: dtod_transfer_def direct_transfer_def andThen_eq_Inr checkHip_eq_Inr Let_def
        started_def step_calls_def copy_call_def launch_msg_def split: if_splits)

lemma issue_transfers_result:
  assumes "issue_transfers w nb l ts tr = Inr (ts', tr')"
  shows "ts' = map started ts \<and> tr' = tr @ round_calls nb l ts"
  using assms
proof (induction ts arbitrary: tr ts' tr')
  case Nil
  then show ?case by (simp add: round_calls_def)
next
  case (Cons t ts)
  from Cons.prems obtain t1 tr1 ts1 where
    s: "(if type t = DTOD then dtod_transfer w t nb l tr else direct_transfer w t nb l tr)
          = Inr (t1, tr1)"
    and r: "issue_transfers w nb l ts tr1 = Inr (ts1, tr')" and e: "ts' = t1 # ts1"
    by (auto simp: andThen_eq_Inr)
  from issue_step [OF s] Cons.IH [OF r] e show ?case
    by (simp add: round_calls_def)
qed

lemma started_idem [simp]: "started (started t) = started t"
  by (simp add: started_def)

lemma started_fields [simp]:
  "start (started t) = start t" "stop (started t) = stop t" "stream (started t) = stream t"
  "dest (started t) = dest t" "src (started t) = src t" "device (started t) = device t"
  "device2 (started t) = device2 t" "type (started t) = type t" "is_started (started t)"
  by (simp_all add: started_def)

lemma copy_call_started [simp]: "copy_call nb (started t) = copy_call nb t"
  by (simp add: copy_call_def)

text \<open>The calls of the first \<open>k\<close> rounds when they all run to their end.\<close>

lemma issue_prefix_result:
  assumes "issue_prefix w niter nb k ts tr = Inr (ts_k, tr_k)"
  shows "ts_k = (if k = 0 then ts else map started ts)
       \<and> tr_k = tr @ concat (map (\<lambda>i. round_calls nb (i = (niter + 2 ^ 64 - 1) mod 2 ^ 64)
                                       (if i = 0 then ts else map started ts)) [0..<k])"
  using assms
proof (induction k arbitrary: ts_k tr_k)
  case 0
  then show ?case by simp
next
  case (Suc k)
  from Suc.prems obtain ts1 tr1 where
    p: "issue_prefix w niter nb k ts tr = Inr (ts1, tr1)"
    and r: "issue_transfers w nb (k = (niter + 2 ^ 64 - 1) mod 2 ^ 64) ts1 tr1 = Inr (ts_k, tr_k)"
    by (auto simp: andThen_eq_Inr)
  from Suc.IH [OF p] issue_transfers_result [OF r] show ?case
    by (auto simp: comp_def)
qed

lemma andThen_assoc:
  "andThen (andThen m f) g = andThen m (\<lambda>x tr. andThen (f x tr) g)"
  by (cases m) auto

lemma issue_loop_prefix:
  "k \<le> niter \<Longrightarrow>
   issue_loop w niter nb 0 ts tr
     = andThen (issue_prefix w niter nb k ts tr) (\<lambda>ts' tr'. issue_loop w niter nb k ts' tr')"
proof (induction k)
  case 0
  then show ?case by simp
next
  case (Suc k)
  then have lt: "k < niter" by simp
  have unfold: "issue_loop w niter nb k ts1 tr1
      = andThen (issue_transfers w nb (k = (niter + 2 ^ 64 - 1) mod 2 ^ 64) ts1 tr1)
          (\<lambda>ts' tr'. issue_loop w niter nb (Suc k) ts' tr')" for ts1 tr1
    using lt by (subst issue_loop.simps) (simp add: andThen_def split: sum.splits)
  from Suc lt show ?case
    by (simp add: andThen_assoc unfold)
qed

lemma issue_loop_reaches:
  assumes "issue_loop w niter nb 0 ts tr = Inr (ts', tr')" and "k \<le> niter"
  shows "\<exists>ts_k tr_k. issue_prefix w niter nb k ts tr = Inr (ts_k, tr_k)
           \<and> issue_loop w niter nb k ts_k tr_k = Inr (ts', tr')"
  using assms issue_loop_prefix [OF assms(2), of w nb ts tr]
  by (auto simp: andThen_eq_Inr)

lemma issue_loop_end: "issue_loop w niter nb niter ts tr = Inr (ts, tr)"
  by (subst issue_loop.simps) simp


lemma is_copy_copy_call [simp]: "is_copy (copy_call nb t)"
  by (simp add: copy_call_def)

lemma filter_copy_step: "filter is_copy (step_calls nb l t) = [copy_call nb t]"
  by (simp add: step_calls_def)

lemma filter_copy_round: "filter is_copy (round_calls nb l ts) = map (copy_call nb) ts"
  by (induction ts) (simp_all add: round_calls_def filter_copy_step)

lemma filter_copy_round_started:
  "filter is_copy (round_calls nb l (if i = 0 then ts else map started ts)) = map (copy_call nb) ts"
  by (simp add: filter_copy_round comp_def)

lemma filter_copy_rounds:
  "filter is_copy (concat (map (\<lambda>i. round_calls nb (l i) (if i = 0 then ts else map started ts))
       [0..<k]))
   = concat (replicate k (map (copy_call nb) ts))"
proof (induction k)
  case 0
  then show ?case by simp
next
  case (Suc k)
  have "replicate (Suc k) (map (copy_call nb) ts)
      = replicate k (map (copy_call nb) ts) @ [map (copy_call nb) ts]"
    by (simp add: replicate_append_same)
  with Suc show ?case
    by (simp add: filter_copy_round_started del: replicate.simps)
qed

lemma issue_step_ok:
  assumes "\<forall>h c. hip_ret w h c = 0"
  shows "(if type t = DTOD then dtod_transfer w t nb l tr else direct_transfer w t nb l tr)
           = Inr (started t, tr @ step_calls nb l t)"
  using assms
  by (simp add: dtod_transfer_def direct_transfer_def checkHip_def Let_def started_def
        step_calls_def copy_call_def launch_msg_def)

lemma issue_transfers_ok:
  assumes "\<forall>h c. hip_ret w h c = 0"
  shows "issue_transfers w nb l ts tr = Inr (map started ts, tr @ round_calls nb l ts)"
proof (induction ts arbitrary: tr)
  case Nil
  then show ?case by (simp add: round_calls_def)
next
  case (Cons t ts)
  from issue_step_ok [OF assms, of t nb l tr] Cons.IH show ?case
    by (simp add: round_calls_def)
qed

lemma issue_prefix_ok:
  assumes "\<forall>h c. hip_ret w h c = 0"
  shows "\<exists>ts_k tr_k. issue_prefix w niter nb k ts tr = Inr (ts_k, tr_k)"
  by (induction k) (auto simp: issue_transfers_ok [OF assms])

lemma issue_loop_ok:
  assumes "\<forall>h c. hip_ret w h c = 0"
  shows "\<exists>ts' tr'. issue_loop w niter nb 0 ts tr = Inr (ts', tr')"
proof -
  from issue_prefix_ok [OF assms, of niter nb niter ts tr] obtain ts' tr' where
    "issue_prefix w niter nb niter ts tr = Inr (ts', tr')" by blast
  with issue_loop_prefix [of niter niter w nb ts tr] show ?thesis
    by (simp add: issue_loop_end)
qed

text \<open>
  C7.  When the runtime calls succeed the issue loop runs to its end, and every issued
  unit, direct or peer-to-peer, makes exactly one copy submission, of \<open>n_bytes\<close> bytes.
  When the loop runs to its end, then for every \<open>k\<close> up to \<open>niter\<close> it reaches index \<open>k\<close>
  after \<open>k\<close> rounds, and the copy submissions made until then are \<open>k\<close> times the list of
  the transfers' copies in the order of the transfers: one round is complete before the
  next one starts.  At the end they are \<open>niter\<close> such rounds.
\<close>

theorem issue_loop_order:
  assumes "k \<le> niter"
  shows "((\<forall>h c. hip_ret w h c = 0) \<longrightarrow>
            (\<exists>ts' tr'. issue_loop w niter n_bytes 0 ts tr = Inr (ts', tr')))
       \<and> (\<forall>ts' tr'. issue_loop w niter n_bytes 0 ts tr = Inr (ts', tr') \<longrightarrow>
            (\<exists>ts_k tr_k. issue_prefix w niter n_bytes k ts tr = Inr (ts_k, tr_k)
               \<and> issue_loop w niter n_bytes k ts_k tr_k = Inr (ts', tr')
               \<and> filter is_copy (drop (length tr) tr_k)
                   = concat (replicate k (map (copy_call n_bytes) ts)))
          \<and> filter is_copy (drop (length tr) tr')
              = concat (replicate niter (map (copy_call n_bytes) ts)))
       \<and> (\<forall>t l tr0. (\<forall>h c. hip_ret w h c = 0) \<longrightarrow>
            (if type t = DTOD then dtod_transfer w t n_bytes l tr0
             else direct_transfer w t n_bytes l tr0)
              = Inr (started t, tr0 @ step_calls n_bytes l t)
          \<and> filter is_copy (step_calls n_bytes l t) = [copy_call n_bytes t])"
proof -
  have at: "\<exists>ts_k tr_k. issue_prefix w niter n_bytes k ts tr = Inr (ts_k, tr_k)
            \<and> issue_loop w niter n_bytes k ts_k tr_k = Inr (ts', tr')
            \<and> filter is_copy (drop (length tr) tr_k)
                = concat (replicate k (map (copy_call n_bytes) ts))"
    if "k \<le> niter" and l: "issue_loop w niter n_bytes 0 ts tr = Inr (ts', tr')" for k ts' tr'
  proof -
    from issue_loop_reaches [OF l that(1)] obtain ts_k tr_k where
      p: "issue_prefix w niter n_bytes k ts tr = Inr (ts_k, tr_k)"
      and r: "issue_loop w niter n_bytes k ts_k tr_k = Inr (ts', tr')"
      by blast
    from issue_prefix_result [OF p] have
      "filter is_copy (drop (length tr) tr_k) = concat (replicate k (map (copy_call n_bytes) ts))"
      by (simp add: filter_copy_rounds)
    with p r show ?thesis by blast
  qed
  have fin: "filter is_copy (drop (length tr) tr')
              = concat (replicate niter (map (copy_call n_bytes) ts))"
    if l: "issue_loop w niter n_bytes 0 ts tr = Inr (ts', tr')" for ts' tr'
    using at [OF order_refl l] by (auto simp: issue_loop_end)
  from at [OF assms] fin issue_loop_ok [of w niter n_bytes ts tr] issue_step_ok [of w]
    filter_copy_step
  show ?thesis by blast
qed

theorem issue_loop_order_witness:
  "(2::nat) \<le> 2
   \<and> (\<forall>h c. hip_ret W_ok h c = 0)
   \<and> issue_loop W_ok 2 1024 0 [T_ready, T_p2p_ready] TR_ready_hp
       = Inr ([started T_ready, started T_p2p_ready], TR_issued_hp)
   \<and> filter is_copy (drop (length TR_ready_hp) TR_issued_hp)
       = [hipMemcpyAsync 12 11 1024 hipMemcpyHostToDevice 6,
          hipMemcpyPeerAsync 21 1 24 0 1024 18,
          hipMemcpyAsync 12 11 1024 hipMemcpyHostToDevice 6,
          hipMemcpyPeerAsync 21 1 24 0 1024 18]"
proof -
  have k: "(2::nat) \<le> 2"
    by simp
  have ok: "\<forall>h c. hip_ret W_ok h c = 0"
    by (simp add: W_ok_def)
  from issue_loop_order [OF k, of W_ok 1024 "[T_ready, T_p2p_ready]" TR_ready_hp]
    issue_loop_opts_hp ok
  show ?thesis
    by (simp add: copy_call_def T_ready_def T_p2p_ready_def numeral_2_eq_2)
qed

section \<open>Handles after the allocation phase\<close>

lemma common_handles:
  assumes "transfer_init_common w t tr = Inr (t1, tr1)"
  shows "length tr < start t1" "start t1 < stop t1" "stop t1 \<le> length tr1"
  using assms unfolding transfer_init_common_def Let_def
  by (auto simp: andThen_eq_Inr checkHip_eq_Inr split: if_splits)

lemma set_numa_affinity_keeps:
  assumes "set_numa_affinity w t tr = (t', tr')"
  shows "start t' = start t" "stop t' = stop t" "is_started t' = is_started t" "type t' = type t"
    "length tr \<le> length tr'"
  using assms
  by (auto simp: set_numa_affinity_def Let_def split: if_splits option.splits)

lemma switch_handles:
  assumes "transfer_init_switch w n fl t tr = Inr (t', tr')"
  shows "length tr < start t' \<and> start t' < stop t' \<and> stop t' \<le> length tr'
       \<and> \<not> is_started t' \<and> type t' = type t"
proof -
  from assms obtain t1 tr1 where c: "transfer_init_common w t tr = Inr (t1, tr1)"
    by (cases "type t")
       (auto simp: transfer_init_switch_def htod_transfer_init_def dtoh_transfer_init_def
          dtod_transfer_init_def andThen_eq_Inr)
  note h = common_handles [OF c] and f = common_fields [OF c]
  obtain t2 tr2 where n: "set_numa_affinity w t1 tr1 = (t2, tr2)"
    by (cases "set_numa_affinity w t1 tr1")
  note k = set_numa_affinity_keeps [OF n]
  show ?thesis
  proof (cases "type t")
    case HTOD
    with assms c h f n k show ?thesis
      by (auto simp: transfer_init_switch_def htod_transfer_init_def andThen_eq_Inr
            checkHip_eq_Inr split: if_splits)
  next
    case DTOH
    with assms c h f n k show ?thesis
      by (auto simp: transfer_init_switch_def dtoh_transfer_init_def andThen_eq_Inr
            checkHip_eq_Inr split: if_splits)
  next
    case DTOD
    with assms c h f show ?thesis
      by (auto simp: transfer_init_switch_def dtod_transfer_init_def andThen_eq_Inr
            checkHip_eq_Inr Let_def split: if_splits)
  qed
qed

lemma loop_handles:
  assumes "transfer_init_loop w n fl ts tr = Inr (ts', tr')"
  shows "length tr \<le> length tr'
       \<and> (\<forall>h \<in> set (event_handles ts'). length tr < h \<and> h \<le> length tr')
       \<and> distinct (event_handles ts')
       \<and> (\<forall>t \<in> set ts'. \<not> is_started t)
       \<and> map type ts' = map type ts"
  using assms
proof (induction ts arbitrary: tr ts' tr')
  case Nil
  then show ?case by (simp add: event_handles_def)
next
  case (Cons t ts)
  from Cons.prems obtain t1 tr1 ts1 where
    s: "transfer_init_switch w n fl t tr = Inr (t1, tr1)"
    and r: "transfer_init_loop w n fl ts tr1 = Inr (ts1, tr')" and e: "ts' = t1 # ts1"
    by (auto simp: andThen_eq_Inr)
  from switch_handles [OF s] Cons.IH [OF r] e show ?case
    by (fastforce simp: event_handles_def)
qed

lemma parse_opt_end_trace:
  "parse_opt ARGP_KEY_END a h e tr = Inr (x, tr') \<Longrightarrow> tr' = tr"
  by (auto simp: parse_opt_def split: if_splits)

lemma init_ready:
  assumes "init w opts = Inr (hits, tr0)"
  shows "distinct (event_handles (transfer hits))" and "\<forall>t \<in> set (transfer hits). \<not> is_started t"
proof -
  from assms obtain h0 e0 tr1 where
    "transfer_init w h0 tr1 = Inr (hits, tr0)"
    by (auto simp: init_def Let_def andThen_eq_Inr split: if_splits)
  then obtain ts where "transfer_init_loop w (size_t_of_long (n_size h0)) (alloc_flags h0)
      (transfer h0) tr1 = Inr (ts, tr0)" and "transfer hits = ts"
    by (auto simp: transfer_init_def andThen_eq_Inr)
  with loop_handles [OF this(1)]
  show "distinct (event_handles (transfer hits))" and "\<forall>t \<in> set (transfer hits). \<not> is_started t"
    by simp_all
qed


lemma records_simps [simp]:
  "records h [] = 0"
  "records h (c # cs) = (if is_record_of h c then 1 else 0) + records h cs"
  "records h (xs @ ys) = records h xs + records h ys"
  by (simp_all add: records_def)

lemma records_copy_call [simp]: "\<not> is_record_of h (copy_call nb t)"
  by (simp add: copy_call_def)

lemma records_step:
  "records h (step_calls nb l t)
     = (if \<not> is_started t \<and> start t = h then 1 else 0) + (if l \<and> stop t = h then 1 else 0)"
  by (simp add: step_calls_def)

lemma records_round:
  "records h (round_calls nb l ts)
     = (\<Sum>t\<leftarrow>ts. (if \<not> is_started t \<and> start t = h then 1 else 0)
                 + (if l \<and> stop t = h then 1 else 0))"
  by (induction ts) (simp_all add: round_calls_def records_step)

lemma sum_list_indicator:
  assumes "distinct (map f ts)" and "j < length ts"
  shows "(\<Sum>t\<leftarrow>ts. if f t = f (ts ! j) then 1 else 0) = (1::nat)"
  using assms
proof (induction ts arbitrary: j)
  case Nil
  then show ?case by simp
next
  case (Cons t ts)
  show ?case
  proof (cases j)
    case 0
    have "(\<Sum>u\<leftarrow>ts. if f u = f t then 1 else 0) = (0::nat)"
      using Cons.prems(1) by (auto simp: sum_list_eq_0_iff image_iff)
    with 0 show ?thesis by simp
  next
    case (Suc i)
    with Cons.prems have "i < length ts" and "distinct (map f ts)" and "f t \<noteq> f (ts ! i)"
      by auto
    with Cons.IH [of i] Suc show ?thesis by simp
  qed
qed

lemma sum_list_zero:
  "(\<And>t. t \<in> set ts \<Longrightarrow> g t = (0::nat)) \<Longrightarrow> (\<Sum>t\<leftarrow>ts. g t) = 0"
  by (simp add: sum_list_eq_0_iff)

lemma event_handles_distinct:
  assumes "distinct (event_handles ts)"
  shows "distinct (map start ts)" and "distinct (map stop ts)"
    and "\<forall>t \<in> set ts. \<forall>u \<in> set ts. start t \<noteq> stop u"
  using assms by (induction ts) (auto simp: event_handles_def)

lemma records_stop_round:
  assumes "distinct (event_handles ts)" and "j < length ts"
  shows "records (stop (ts ! j)) (round_calls nb l ts) = (if l then 1 else 0)"
    and "records (stop (ts ! j)) (round_calls nb l (map started ts)) = (if l then 1 else 0)"
proof -
  note d = event_handles_distinct [OF assms(1)]
  have tj: "ts ! j \<in> set ts" using assms(2) by simp
  have ne: "start t \<noteq> stop (ts ! j)" if "t \<in> set ts" for t
    using d(3) that tj by blast
  have one: "(\<Sum>t\<leftarrow>ts. if stop t = stop (ts ! j) then 1 else 0) = (1::nat)"
    by (rule sum_list_indicator [OF d(2) assms(2)])
  have "(\<Sum>t\<leftarrow>ts. (if \<not> is_started t \<and> start t = stop (ts ! j) then 1 else 0)
                 + (if l \<and> stop t = stop (ts ! j) then 1 else 0))
      = (\<Sum>t\<leftarrow>ts. if l then (if stop t = stop (ts ! j) then 1 else 0) else (0::nat))"
    by (rule arg_cong [where f = sum_list], rule map_cong) (auto simp: ne)
  also have "\<dots> = (if l then 1 else 0)"
    using one by (simp add: sum_list_zero)
  finally show "records (stop (ts ! j)) (round_calls nb l ts) = (if l then 1 else 0)"
    by (simp add: records_round)
  have "(\<Sum>t\<leftarrow>ts. (if l \<and> stop t = stop (ts ! j) then 1 else 0))
      = (\<Sum>t\<leftarrow>ts. if l then (if stop t = stop (ts ! j) then 1 else 0) else (0::nat))"
    by (rule arg_cong [where f = sum_list], rule map_cong) auto
  also have "\<dots> = (if l then 1 else 0)"
    using one by (simp add: sum_list_zero)
  finally show "records (stop (ts ! j)) (round_calls nb l (map started ts)) = (if l then 1 else 0)"
    by (simp add: records_round comp_def)
qed

lemma records_start_round:
  assumes "distinct (event_handles ts)" and "j < length ts"
  shows "\<forall>t \<in> set ts. \<not> is_started t \<Longrightarrow> records (start (ts ! j)) (round_calls nb l ts) = 1"
    and "records (start (ts ! j)) (round_calls nb l (map started ts)) = 0"
proof -
  note d = event_handles_distinct [OF assms(1)]
  have tj: "ts ! j \<in> set ts" using assms(2) by simp
  have ne: "stop t \<noteq> start (ts ! j)" if "t \<in> set ts" for t
    using d(3) that tj by metis
  have one: "(\<Sum>t\<leftarrow>ts. if start t = start (ts ! j) then 1 else 0) = (1::nat)"
    by (rule sum_list_indicator [OF d(1) assms(2)])
  show "records (start (ts ! j)) (round_calls nb l ts) = 1" if ns: "\<forall>t \<in> set ts. \<not> is_started t"
  proof -
    have "(\<Sum>t\<leftarrow>ts. (if \<not> is_started t \<and> start t = start (ts ! j) then 1 else 0)
                 + (if l \<and> stop t = start (ts ! j) then 1 else 0))
      = (\<Sum>t\<leftarrow>ts. if start t = start (ts ! j) then 1 else (0::nat))"
      by (rule arg_cong [where f = sum_list], rule map_cong) (auto simp: ne ns)
    with one show ?thesis by (simp add: records_round)
  qed
  have "(\<Sum>t\<leftarrow>ts. (if l \<and> stop t = start (ts ! j) then 1 else 0)) = (0::nat)"
    by (rule sum_list_zero) (simp add: ne)
  then show "records (start (ts ! j)) (round_calls nb l (map started ts)) = 0"
    by (simp add: records_round comp_def)
qed

lemma records_concat_upt:
  "records h (concat (map f [0..<k])) = (\<Sum>i\<leftarrow>[0..<k]. records h (f i))"
  by (induction k) simp_all

lemma wrap_minus_one:
  fixes niter m :: nat
  assumes "1 \<le> niter" and "niter < m"
  shows "(niter + m - 1) mod m = niter - 1"
proof -
  have "niter + m - 1 = (niter - 1) + m"
    using assms by arith
  then have "(niter + m - 1) mod m = (niter - 1) mod m"
    by (simp only: mod_add_self2)
  then show ?thesis
    using assms by simp
qed

lemma size_t_minus_one:
  fixes niter :: nat
  assumes "1 \<le> niter" and "niter < 2 ^ 64"
  shows "(niter + 2 ^ 64 - 1) mod 2 ^ 64 = niter - 1"
  using assms by (rule wrap_minus_one)

lemma size_t_of_long_bound: "size_t_of_long v < 2 ^ 64"
  by (simp add: size_t_of_long_def)

lemma sum_last_index:
  "k \<le> niter \<Longrightarrow> 1 \<le> niter \<Longrightarrow>
   (\<Sum>i\<leftarrow>[0..<k]. if i = niter - 1 then 1 else 0) = (if k = niter then 1 else (0::nat))"
  by (induction k) auto

lemma sum_first_index:
  "(\<Sum>i\<leftarrow>[0..<k]. if i = 0 then 1 else 0) = (if 1 \<le> k then 1 else (0::nat))"
  by (induction k) auto

section \<open>Timing marks\<close>

lemma records_stop_any_round:
  assumes "distinct (event_handles ts)" and "j < length ts"
  shows "records (stop (ts ! j)) (round_calls nb l (if i = 0 then ts else map started ts))
           = (if l then 1 else 0)"
  using records_stop_round [OF assms] by simp

lemma records_start_any_round:
  assumes "distinct (event_handles ts)" and "j < length ts" and "\<forall>t \<in> set ts. \<not> is_started t"
  shows "records (start (ts ! j)) (round_calls nb l (if i = 0 then ts else map started ts))
           = (if i = 0 then 1 else 0)"
  using records_start_round [OF assms(1,2)] assms(3) by simp

lemma records_stop_prefix:
  assumes "distinct (event_handles ts)" and "j < length ts"
    and "issue_prefix w niter nb k ts tr = Inr (ts_k, tr_k)"
    and "1 \<le> niter" and "niter < 2 ^ 64" and "k \<le> niter"
  shows "records (stop (ts ! j)) (drop (length tr) tr_k) = (if k = niter then 1 else 0)"
proof -
  have "tr_k = tr @ concat (map (\<lambda>i. round_calls nb (i = niter - 1)
                                       (if i = 0 then ts else map started ts)) [0..<k])"
    using issue_prefix_result [OF assms(3)]
    by (simp only: size_t_minus_one [OF assms(4,5)])
  then have "records (stop (ts ! j)) (drop (length tr) tr_k)
      = (\<Sum>i\<leftarrow>[0..<k]. if i = niter - 1 then 1 else 0)"
    by (simp add: records_concat_upt records_stop_any_round [OF assms(1,2)])
  then show ?thesis
    using sum_last_index [OF assms(6,4)] by simp
qed

lemma records_start_prefix:
  assumes "distinct (event_handles ts)" and "j < length ts" and "\<forall>t \<in> set ts. \<not> is_started t"
    and "issue_prefix w niter nb k ts tr = Inr (ts_k, tr_k)"
  shows "records (start (ts ! j)) (drop (length tr) tr_k) = (if 1 \<le> k then 1 else 0)"
    and "is_started (ts_k ! j) = (1 \<le> k)"
proof -
  have "records (start (ts ! j)) (drop (length tr) tr_k)
      = (\<Sum>i\<leftarrow>[0..<k]. if i = 0 then 1 else 0)"
    using issue_prefix_result [OF assms(4)]
    by (simp add: records_concat_upt records_start_any_round [OF assms(1,2,3)])
  then show "records (start (ts ! j)) (drop (length tr) tr_k) = (if 1 \<le> k then 1 else 0)"
    using sum_first_index [of k] by simp
  show "is_started (ts_k ! j) = (1 \<le> k)"
    using issue_prefix_result [OF assms(4)] assms(2,3) by (cases k) simp_all
qed

text \<open>
  C1 (as amended).  The program has been initialised and the issue loop runs to its end
  over at least one iteration.  Then for every \<open>k\<close> up to the iteration count, the stop
  event of every transfer has not been recorded during the first \<open>k\<close> rounds when \<open>k\<close>
  is below the iteration count, and has been recorded exactly once when all rounds are
  done: it is recorded once, in the round with index \<open>n_iter - 1\<close>.
\<close>

theorem stop_mark_last_round:
  assumes "init w opts = Inr (hits, tr0)"
    and "issue_loop w (size_t_of_long (n_iter hits)) n_bytes 0 (transfer hits) tr0 = Inr (ts', tr1)"
    and "1 \<le> size_t_of_long (n_iter hits)"
    and "j < length (transfer hits)"
    and "k \<le> size_t_of_long (n_iter hits)"
  shows "(\<exists>ts_k tr_k.
            issue_prefix w (size_t_of_long (n_iter hits)) n_bytes k (transfer hits) tr0
              = Inr (ts_k, tr_k)
          \<and> issue_loop w (size_t_of_long (n_iter hits)) n_bytes k ts_k tr_k = Inr (ts', tr1)
          \<and> records (stop (transfer hits ! j)) (drop (length tr0) tr_k)
              = (if k = size_t_of_long (n_iter hits) then 1 else 0))
       \<and> records (stop (transfer hits ! j)) (drop (length tr0) tr1) = 1"
proof -
  let ?n = "size_t_of_long (n_iter hits)"
  note d = init_ready(1) [OF assms(1)]
  have at: "\<exists>ts_k tr_k. issue_prefix w ?n n_bytes k (transfer hits) tr0 = Inr (ts_k, tr_k)
          \<and> issue_loop w ?n n_bytes k ts_k tr_k = Inr (ts', tr1)
          \<and> records (stop (transfer hits ! j)) (drop (length tr0) tr_k)
              = (if k = ?n then 1 else 0)" if "k \<le> ?n" for k
  proof -
    from issue_loop_reaches [OF assms(2) that] obtain ts_k tr_k where
      p: "issue_prefix w ?n n_bytes k (transfer hits) tr0 = Inr (ts_k, tr_k)"
      and l: "issue_loop w ?n n_bytes k ts_k tr_k = Inr (ts', tr1)"
      by blast
    from records_stop_prefix [OF d assms(4) p assms(3) size_t_of_long_bound that] p l
    show ?thesis by blast
  qed
  from at [of ?n] have "records (stop (transfer hits ! j)) (drop (length tr0) tr1) = 1"
    by (auto simp: issue_loop_end)
  with at [OF assms(5)] show ?thesis by blast
qed

theorem stop_mark_last_round_witness:
  "init W_ok opts3
     = Inr (\<lparr>transfer = [T_ready], n_iter = 3, n_size = 1024, alloc_flags = 3\<rparr>, TR_ready 1024)
   \<and> (\<exists>ts' tr1. issue_loop W_ok 3 1024 0 [T_ready] (TR_ready 1024) = Inr (ts', tr1)
         \<and> records 5 (drop (length (TR_ready 1024)) tr1) = 1)"
proof -
  let ?h = "\<lparr>transfer = [T_ready], n_iter = 3, n_size = 1024, alloc_flags = 3\<rparr>"
  have n: "size_t_of_long 3 = 3"
    by (simp add: size_t_of_long_def)
  obtain ts' tr1 where
    l: "issue_loop W_ok (size_t_of_long (n_iter ?h)) 1024 0 (transfer ?h) (TR_ready 1024)
          = Inr (ts', tr1)"
    using issue_loop_opts3 by (simp add: n)
  have h3: "1 \<le> size_t_of_long (n_iter ?h)" and h5: "3 \<le> size_t_of_long (n_iter ?h)"
    by (simp_all add: n)
  have h4: "0 < length (transfer ?h)"
    by simp
  from stop_mark_last_round [OF init_opts3 l h3 h4 h5] init_opts3 l show ?thesis
    by (simp add: n T_ready_def)
qed

text \<open>With \<open>--iter=0\<close> the parser accepts the count, the loop has no round, and the
  stop event of the transfer is not recorded.\<close>

theorem stop_mark_counterexample:
  "init W_ok opts_iter0
     = Inr (\<lparr>transfer = [T_ready], n_iter = 0, n_size = 1073741824, alloc_flags = 3\<rparr>,
            TR_ready 1073741824)
   \<and> stop T_ready = 5
   \<and> issue_loop W_ok (size_t_of_long 0) (size_t_of_long 1073741824) 0 [T_ready]
         (TR_ready 1073741824)
       = Inr ([T_ready], TR_ready 1073741824)
   \<and> records 5 (TR_ready 1073741824) = 0"
  using init_opts_iter0
  by (simp add: issue_loop.simps size_t_of_long_def T_ready_def TR_ready_def)

text \<open>
  C6.  The program has been initialised, for at least one iteration.  Before the loop
  the flag \<open>is_started\<close> of every transfer is unset.  When the runtime calls succeed the
  issue loop runs to its end, and every issued unit, direct or peer-to-peer, returns the
  transfer with the flag set, recording the start event when the flag was unset and
  not otherwise.  When the loop runs to its end, then for every \<open>k\<close> up to the
  iteration count, after the first \<open>k\<close> rounds the flag of every transfer is set exactly
  when \<open>k \<ge> 1\<close>, and its start event has been recorded once when \<open>k \<ge> 1\<close> and not at all
  before: the flag is set in the first round, together with the recording of the start
  event, and is still set after every later round and at the end.  No issued unit ever
  leaves it unset.
\<close>

theorem started_once:
  assumes "init w opts = Inr (hits, tr0)"
    and "1 \<le> size_t_of_long (n_iter hits)"
    and "j < length (transfer hits)"
    and "k \<le> size_t_of_long (n_iter hits)"
  shows "\<not> is_started (transfer hits ! j)
       \<and> ((\<forall>h c. hip_ret w h c = 0) \<longrightarrow>
            (\<exists>ts' tr1. issue_loop w (size_t_of_long (n_iter hits)) n_bytes 0 (transfer hits) tr0
                          = Inr (ts', tr1)))
       \<and> (\<forall>ts' tr1.
            issue_loop w (size_t_of_long (n_iter hits)) n_bytes 0 (transfer hits) tr0
              = Inr (ts', tr1) \<longrightarrow>
            (\<exists>ts_k tr_k.
               issue_prefix w (size_t_of_long (n_iter hits)) n_bytes k (transfer hits) tr0
                 = Inr (ts_k, tr_k)
             \<and> issue_loop w (size_t_of_long (n_iter hits)) n_bytes k ts_k tr_k = Inr (ts', tr1)
             \<and> is_started (ts_k ! j) = (1 \<le> k)
             \<and> records (start (transfer hits ! j)) (drop (length tr0) tr_k)
                 = (if 1 \<le> k then 1 else 0))
          \<and> is_started (ts' ! j)
          \<and> records (start (transfer hits ! j)) (drop (length tr0) tr1) = 1)
       \<and> (\<forall>t n l tr t' tr'.
            (if type t = DTOD then dtod_transfer w t n l tr else direct_transfer w t n l tr)
              = Inr (t', tr') \<longrightarrow> is_started t')
       \<and> (\<forall>t n l tr. (\<forall>h c. hip_ret w h c = 0) \<longrightarrow>
            (if type t = DTOD then dtod_transfer w t n l tr else direct_transfer w t n l tr)
              = Inr (started t, tr @ step_calls n l t)
          \<and> records (start t) (step_calls n l t)
              = (if is_started t then 0 else 1) + (if l \<and> stop t = start t then 1 else 0))"
proof -
  let ?n = "size_t_of_long (n_iter hits)"
  note d = init_ready [OF assms(1)]
  have at: "\<exists>ts_k tr_k. issue_prefix w ?n n_bytes k (transfer hits) tr0 = Inr (ts_k, tr_k)
          \<and> issue_loop w ?n n_bytes k ts_k tr_k = Inr (ts', tr1)
          \<and> is_started (ts_k ! j) = (1 \<le> k)
          \<and> records (start (transfer hits ! j)) (drop (length tr0) tr_k)
              = (if 1 \<le> k then 1 else 0)"
    if "k \<le> ?n" and l: "issue_loop w ?n n_bytes 0 (transfer hits) tr0 = Inr (ts', tr1)"
    for k ts' tr1
  proof -
    from issue_loop_reaches [OF l that(1)] obtain ts_k tr_k where
      p: "issue_prefix w ?n n_bytes k (transfer hits) tr0 = Inr (ts_k, tr_k)"
      and r: "issue_loop w ?n n_bytes k ts_k tr_k = Inr (ts', tr1)"
      by blast
    from records_start_prefix [OF d(1) assms(3) d(2) p] p r
    show ?thesis by blast
  qed
  have fin: "is_started (ts' ! j)
      \<and> records (start (transfer hits ! j)) (drop (length tr0) tr1) = 1"
    if l: "issue_loop w ?n n_bytes 0 (transfer hits) tr0 = Inr (ts', tr1)" for ts' tr1
    using at [OF order_refl l] assms(2) by (auto simp: issue_loop_end)
  have ns: "\<not> is_started (transfer hits ! j)"
    using d(2) assms(3) by simp
  have mono: "\<forall>t n l tr t' tr'.
            (if type t = DTOD then dtod_transfer w t n l tr else direct_transfer w t n l tr)
              = Inr (t', tr') \<longrightarrow> is_started t'"
    using issue_step(1) by (metis started_fields(9))
  have rec: "records (start t) (step_calls n l t)
      = (if is_started t then 0 else 1) + (if l \<and> stop t = start t then 1 else 0)" for t n l
    by (simp add: records_step)
  from at [OF assms(4)] fin ns mono rec
    issue_loop_ok [of w ?n n_bytes "transfer hits" tr0] issue_step_ok [of w]
  show ?thesis by blast
qed

theorem started_once_witness:
  "init W_ok opts_hp
     = Inr (\<lparr>transfer = [T_ready, T_p2p_ready], n_iter = 2, n_size = 1024, alloc_flags = 3\<rparr>,
            TR_ready_hp)
   \<and> (\<forall>h c. hip_ret W_ok h c = 0)
   \<and> \<not> is_started T_p2p_ready
   \<and> issue_loop W_ok 2 1024 0 [T_ready, T_p2p_ready] TR_ready_hp
       = Inr ([started T_ready, started T_p2p_ready], TR_issued_hp)
   \<and> is_started (started T_p2p_ready)
   \<and> records 16 (drop (length TR_ready_hp) TR_issued_hp) = 1"
proof -
  let ?h = "\<lparr>transfer = [T_ready, T_p2p_ready], n_iter = 2, n_size = 1024, alloc_flags = 3\<rparr>"
  have n: "size_t_of_long 2 = 2"
    by (simp add: size_t_of_long_def)
  have ok: "\<forall>h c. hip_ret W_ok h c = 0"
    by (simp add: W_ok_def)
  have h2: "1 \<le> size_t_of_long (n_iter ?h)" and h4: "2 \<le> size_t_of_long (n_iter ?h)"
    by (simp_all add: n)
  have h3: "1 < length (transfer ?h)"
    by simp
  from started_once [OF init_opts_hp h2 h3 h4, of 1024] init_opts_hp issue_loop_opts_hp ok
  show ?thesis
    by (simp add: n T_p2p_ready_def)
qed

section \<open>Exit status\<close>

lemma no_exit0_simps [simp]:
  "no_exit0 (Inl (h, tr)) = (h \<noteq> Exit 0)" "no_exit0 (Inr x)"
  by (simp_all add: no_exit0_def)

lemma no_exit0_andThen [simp]:
  "no_exit0 (andThen m f) \<longleftrightarrow> no_exit0 m \<and> (\<forall>x tr1. m = Inr (x, tr1) \<longrightarrow> no_exit0 (f x tr1))"
  by (cases m) (auto simp: no_exit0_def)

lemma no_exit0_checkHip [simp]: "no_exit0 (checkHip w c tr)"
  by (simp add: checkHip_def Let_def)

lemma no_exit0_common: "no_exit0 (transfer_init_common w t tr)"
  by (simp add: transfer_init_common_def Let_def)

lemma no_exit0_switch: "no_exit0 (transfer_init_switch w n fl t tr)"
  by (cases "type t")
     (simp_all add: transfer_init_switch_def htod_transfer_init_def dtoh_transfer_init_def
        dtod_transfer_init_def no_exit0_common Let_def split: prod.splits)

lemma no_exit0_init_loop: "no_exit0 (transfer_init_loop w n fl ts tr)"
  by (induction ts arbitrary: tr) (simp_all add: no_exit0_switch)

lemma no_exit0_parse_opt: "no_exit0 (parse_opt key a h e tr)"
proof (cases key)
  case (Key k)
  with parse_opt_option_outcome [of k a h e tr] show ?thesis
    by auto
next
  case ARGP_KEY_END
  then show ?thesis by (simp add: parse_opt_def EX_USAGE_def)
next
  case ARGP_KEY_other
  then show ?thesis by (simp add: parse_opt_def)
qed

lemma no_exit0_argp_parse: "no_exit0 (argp_parse opts h e tr)"
proof (induction opts arbitrary: h e tr)
  case Nil
  then show ?case by (simp add: no_exit0_parse_opt split: prod.splits)
next
  case (Cons ka opts)
  obtain k a where "ka = (k, a)" by (cases ka)
  with Cons show ?case by (simp add: no_exit0_parse_opt split: prod.splits)
qed

lemma no_exit0_init: "no_exit0 (init w opts)"
  by (simp add: init_def transfer_init_def Let_def no_exit0_argp_parse no_exit0_init_loop
        split: prod.splits)

lemma no_exit0_step:
  "no_exit0 (if type t = DTOD then dtod_transfer w t nb l tr else direct_transfer w t nb l tr)"
  by (simp add: dtod_transfer_def direct_transfer_def Let_def)

lemma no_exit0_issue_transfers: "no_exit0 (issue_transfers w nb l ts tr)"
  using no_exit0_step by (induction ts arbitrary: tr) (simp_all split: if_splits)

lemma no_exit0_issue_loop: "no_exit0 (issue_loop w niter nb i ts tr)"
proof (induction w niter nb i ts tr rule: issue_loop.induct)
  case (1 w niter nb i ts tr)
  show ?case
  proof (cases "i < niter")
    case False
    then show ?thesis by (subst issue_loop.simps) simp
  next
    case True
    show ?thesis
    proof (cases "issue_transfers w nb (i = (niter + 2 ^ 64 - 1) mod 2 ^ 64) ts tr")
      case (Inl e)
      with no_exit0_issue_transfers [of w nb "i = (niter + 2 ^ 64 - 1) mod 2 ^ 64" ts tr] True
      show ?thesis
        by (subst issue_loop.simps) (cases e, simp)
    next
      case (Inr p)
      obtain ts1 tr1 where "p = (ts1, tr1)" by (cases p)
      with Inr True "1.IH" [OF True Inr, of ts1 tr1] show ?thesis
        by (subst issue_loop.simps) simp
    qed
  qed
qed

lemma no_exit0_synchronize: "no_exit0 (synchronize w ts tr)"
  by (induction ts arbitrary: tr) simp_all

lemma no_exit0_report: "no_exit0 (report w i ts tr)"
  by (induction ts arbitrary: i tr) simp_all

lemma no_exit0_fini_loop: "no_exit0 (fini_loop w fl ts tr)"
  by (induction ts arbitrary: tr) (simp_all split: TransferType.splits)

lemma no_exit0_fini: "no_exit0 (fini w h tr)"
  by (simp add: fini_def no_exit0_fini_loop)

text \<open>\<open>main\<close> ends with status 0 only by returning from its last statement.\<close>

lemma main_exit0:
  assumes "main w opts = (Exit 0, tr)"
  shows "\<exists>hits tr0 ts tr1 tr2 tr3.
           init w opts = Inr (hits, tr0)
         \<and> issue_loop w (size_t_of_long (n_iter hits)) (size_t_of_long (n_size hits)) 0
              (transfer hits) tr0 = Inr (ts, tr1)
         \<and> synchronize w ts tr1 = Inr ((), tr2)
         \<and> report w 0 ts (tr2 @ [printf Completed]) = Inr ((), tr3)
         \<and> fini w (hits\<lparr>transfer := ts\<rparr>) tr3 = Inr ((), tr)"
proof -
  let ?body = "andThen (init w opts) (\<lambda>hits tr0.
        let niter = size_t_of_long (n_iter hits);
            n_bytes = size_t_of_long (n_size hits) in
        andThen (issue_loop w niter n_bytes 0 (transfer hits) tr0) (\<lambda>ts tr1.
        let hits1 = hits\<lparr>transfer := ts\<rparr> in
        andThen (synchronize w (transfer hits1) tr1) (\<lambda>_ tr2.
        andThen (report w 0 (transfer hits1) (tr2 @ [printf Completed])) (\<lambda>_ tr3.
        fini w hits1 tr3))))"
  have "no_exit0 ?body"
    by (simp add: Let_def no_exit0_init no_exit0_issue_loop no_exit0_synchronize
          no_exit0_report no_exit0_fini)
  with assms have "?body = Inr ((), tr)"
    by (cases ?body) (auto simp: main_def no_exit0_def)
  then show ?thesis
    by (auto simp: andThen_eq_Inr Let_def)
qed

section \<open>Teardown\<close>

lemma acq_from_append:
  "acq_from P k (xs @ ys) = acq_from P k xs @ acq_from P (k + length xs) ys"
  by (induction xs arbitrary: k) simp_all

lemma acq_from_none: "\<forall>c \<in> set cs. \<not> P c \<Longrightarrow> acq_from P k cs = []"
  by (induction cs arbitrary: k) simp_all

lemma released_none: "\<forall>c \<in> set cs. \<not> is_release c \<Longrightarrow> released cs = []"
proof (induction cs)
  case Nil
  then show ?case by (simp add: released_def)
next
  case (Cons c cs)
  then show ?case by (cases c) (simp_all add: released_def)
qed

lemma released_append: "released (xs @ ys) = released xs @ released ys"
  by (simp add: released_def)

lemma released_free_calls: "released (map (free_call fl) hs) = hs"
  by (induction hs) (simp_all add: released_def free_call_def)

lemma set_numa_affinity_extends:
  assumes "\<And>p. Q (fopen p)" "Q fscanf" "Q fclose" "\<And>v. Q (numa_set_preferred v)"
    and "set_numa_affinity w t tr = (t', tr')"
  shows "\<exists>new. tr' = tr @ new \<and> (\<forall>c \<in> set new. Q c)"
  using assms(5)
  by (auto simp: set_numa_affinity_def Let_def assms(1-4) split: if_splits option.splits)

lemma set_numa_affinity_bufs:
  assumes "set_numa_affinity w t tr = (t', tr')"
  shows "dest t' = dest t" "src t' = src t"
  using assms
  by (auto simp: set_numa_affinity_def Let_def split: if_splits option.splits)


lemma numa_step_shape:
  assumes "(if fl AND is_numa_aware \<noteq> 0 then set_numa_affinity w t1 tr1 else (t1, tr1)) = (t2, tr2)"
  shows "\<exists>new. tr2 = tr1 @ new \<and> (\<forall>c \<in> set new. \<not> is_host_alloc c \<and> \<not> is_release c)"
    and "type t2 = type t1" and "dest t2 = dest t1" and "src t2 = src t1"
proof -
  show "\<exists>new. tr2 = tr1 @ new \<and> (\<forall>c \<in> set new. \<not> is_host_alloc c \<and> \<not> is_release c)"
  proof (cases "fl AND is_numa_aware \<noteq> 0")
    case True
    with assms have "set_numa_affinity w t1 tr1 = (t2, tr2)" by simp
    then show ?thesis
      by (rule set_numa_affinity_extends [rotated -1]) simp_all
  next
    case False
    with assms show ?thesis by simp
  qed
  show "type t2 = type t1" and "dest t2 = dest t1" and "src t2 = src t1"
    using assms set_numa_affinity_keeps(4) [of w t1 tr1 t2 tr2]
      set_numa_affinity_bufs [of w t1 tr1 t2 tr2]
    by (auto split: if_splits)
qed

lemma common_shape:
  assumes "transfer_init_common w t tr = Inr (t1, tr1)"
  shows "\<exists>new. tr1 = tr @ new \<and> (\<forall>c \<in> set new. \<not> is_host_alloc c \<and> \<not> is_release c)"
proof -
  have "extends (\<lambda>c. \<not> is_host_alloc c \<and> \<not> is_release c) tr (transfer_init_common w t tr)"
    by (rule common_extends) simp_all
  with assms show ?thesis by (simp add: extends_def)
qed

lemma htod_host:
  assumes "htod_transfer_init w t n fl tr = Inr (t', tr')"
  shows "\<exists>pre hc. tr' = tr @ pre @ [hc, hipMalloc n]
           \<and> (\<forall>c \<in> set pre. \<not> is_host_alloc c \<and> \<not> is_release c)
           \<and> is_host_alloc hc \<and> src t' = Suc (length tr + length pre) \<and> type t' = type t"
proof -
  from assms obtain t1 tr1 where c: "transfer_init_common w t tr = Inr (t1, tr1)"
    by (auto simp: htod_transfer_init_def andThen_eq_Inr)
  obtain t2 tr2 where
    n: "(if fl AND is_numa_aware \<noteq> 0 then set_numa_affinity w t1 tr1 else (t1, tr1)) = (t2, tr2)"
    by (cases "if fl AND is_numa_aware \<noteq> 0 then set_numa_affinity w t1 tr1 else (t1, tr1)")
  from common_shape [OF c] obtain cn where
    cn: "tr1 = tr @ cn" "\<forall>c \<in> set cn. \<not> is_host_alloc c \<and> \<not> is_release c"
    by blast
  from numa_step_shape(1) [OF n] obtain nn where
    nn: "tr2 = tr1 @ nn" "\<forall>c \<in> set nn. \<not> is_host_alloc c \<and> \<not> is_release c"
    by blast
  have ty: "type t2 = type t"
    using numa_step_shape(2) [OF n] common_fields(5) [OF c] by simp
  from assms c n have
    "\<exists>hc. tr' = tr2 @ [hc, hipMalloc n] \<and> is_host_alloc hc \<and> src t' = Suc (length tr2)
        \<and> type t' = type t2"
    by (auto simp: htod_transfer_init_def andThen_eq_Inr checkHip_eq_Inr host_ptr_def
          split: if_splits)
  then obtain hc where "tr' = tr @ (cn @ nn) @ [hc, hipMalloc n]" "is_host_alloc hc"
    "src t' = Suc (length tr + length (cn @ nn))" "type t' = type t"
    using cn nn ty by auto
  moreover have "\<forall>c \<in> set (cn @ nn). \<not> is_host_alloc c \<and> \<not> is_release c"
    using cn nn by auto
  ultimately show ?thesis by blast
qed

lemma dtoh_host:
  assumes "dtoh_transfer_init w t n fl tr = Inr (t', tr')"
  shows "\<exists>pre hc. tr' = tr @ pre @ [hc, hipMalloc n]
           \<and> (\<forall>c \<in> set pre. \<not> is_host_alloc c \<and> \<not> is_release c)
           \<and> is_host_alloc hc \<and> dest t' = Suc (length tr + length pre) \<and> type t' = type t"
proof -
  from assms obtain t1 tr1 where c: "transfer_init_common w t tr = Inr (t1, tr1)"
    by (auto simp: dtoh_transfer_init_def andThen_eq_Inr)
  obtain t2 tr2 where
    n: "(if fl AND is_numa_aware \<noteq> 0 then set_numa_affinity w t1 tr1 else (t1, tr1)) = (t2, tr2)"
    by (cases "if fl AND is_numa_aware \<noteq> 0 then set_numa_affinity w t1 tr1 else (t1, tr1)")
  from common_shape [OF c] obtain cn where
    cn: "tr1 = tr @ cn" "\<forall>c \<in> set cn. \<not> is_host_alloc c \<and> \<not> is_release c"
    by blast
  from numa_step_shape(1) [OF n] obtain nn where
    nn: "tr2 = tr1 @ nn" "\<forall>c \<in> set nn. \<not> is_host_alloc c \<and> \<not> is_release c"
    by blast
  have ty: "type t2 = type t"
    using numa_step_shape(2) [OF n] common_fields(5) [OF c] by simp
  from assms c n have
    "\<exists>hc. tr' = tr2 @ [hc, hipMalloc n] \<and> is_host_alloc hc \<and> dest t' = Suc (length tr2)
        \<and> type t' = type t2"
    by (auto simp: dtoh_transfer_init_def andThen_eq_Inr checkHip_eq_Inr host_ptr_def
          split: if_splits)
  then obtain hc where "tr' = tr @ (cn @ nn) @ [hc, hipMalloc n]" "is_host_alloc hc"
    "dest t' = Suc (length tr + length (cn @ nn))" "type t' = type t"
    using cn nn ty by auto
  moreover have "\<forall>c \<in> set (cn @ nn). \<not> is_host_alloc c \<and> \<not> is_release c"
    using cn nn by auto
  ultimately show ?thesis by blast
qed

lemma dtod_host:
  assumes "dtod_transfer_init w t n tr = Inr (t', tr')"
  shows "\<exists>new. tr' = tr @ new \<and> (\<forall>c \<in> set new. \<not> is_host_alloc c \<and> \<not> is_release c)"
    and "type t' = type t"
proof -
  let ?Q = "\<lambda>c. \<not> is_host_alloc c \<and> \<not> is_release c"
  have "extends ?Q tr (dtod_transfer_init w t n tr)"
    unfolding dtod_transfer_init_def
  proof (rule extends_andThen)
    show "extends ?Q tr (transfer_init_common w t tr)"
      by (rule common_extends) simp_all
  next
    fix t1 tr1
    let ?q = "hipDeviceCanAccessPeer (device t1) (device2 t1)"
    have "extends ?Q (tr1 @ [?q])
       (andThen (checkHip w (hipSetDevice (device t1)) (tr1 @ [?q])) (\<lambda>_ tr3.
        andThen (checkHip w (hipMalloc n) tr3) (\<lambda>_ tr4.
        let t2 = t1\<lparr>dest := length tr4\<rparr> in
        andThen (checkHip w (hipDeviceEnablePeerAccess (device2 t2)) tr4) (\<lambda>_ tr5.
        andThen (checkHip w (hipSetDevice (device2 t2)) tr5) (\<lambda>_ tr6.
        andThen (checkHip w (hipMalloc n) tr6) (\<lambda>_ tr7.
        Inr (t2\<lparr>src := length tr7\<rparr>, tr7)))))))"
      by (rule dtod_tail_extends) simp_all
    then have "extends ?Q tr1
       (andThen (checkHip w (hipSetDevice (device t1)) (tr1 @ [?q])) (\<lambda>_ tr3.
        andThen (checkHip w (hipMalloc n) tr3) (\<lambda>_ tr4.
        let t2 = t1\<lparr>dest := length tr4\<rparr> in
        andThen (checkHip w (hipDeviceEnablePeerAccess (device2 t2)) tr4) (\<lambda>_ tr5.
        andThen (checkHip w (hipSetDevice (device2 t2)) tr5) (\<lambda>_ tr6.
        andThen (checkHip w (hipMalloc n) tr6) (\<lambda>_ tr7.
        Inr (t2\<lparr>src := length tr7\<rparr>, tr7)))))))"
      by (rule extends_app [rotated]) simp
    then show "extends ?Q tr1
       (let is_access = peer_access w (device t1) (device2 t1); tr2 = tr1 @ [?q] in
        if is_access = 0
        then Inl (Exit 1, tr2 @ [fprintf_stderr (Err_p2p (device t1) (device2 t1))])
        else
         andThen (checkHip w (hipSetDevice (device t1)) tr2) (\<lambda>_ tr3.
         andThen (checkHip w (hipMalloc n) tr3) (\<lambda>_ tr4.
         let t2 = t1\<lparr>dest := length tr4\<rparr> in
         andThen (checkHip w (hipDeviceEnablePeerAccess (device2 t2)) tr4) (\<lambda>_ tr5.
         andThen (checkHip w (hipSetDevice (device2 t2)) tr5) (\<lambda>_ tr6.
         andThen (checkHip w (hipMalloc n) tr6) (\<lambda>_ tr7.
         Inr (t2\<lparr>src := length tr7\<rparr>, tr7)))))))"
      by (simp add: Let_def extends_def)
  qed
  with assms show "\<exists>new. tr' = tr @ new \<and> (\<forall>c \<in> set new. \<not> is_host_alloc c \<and> \<not> is_release c)"
    by (simp add: extends_def)
  from assms obtain t1 tr1 where c: "transfer_init_common w t tr = Inr (t1, tr1)"
    by (auto simp: dtod_transfer_init_def andThen_eq_Inr)
  with assms common_fields(5) [OF c] show "type t' = type t"
    by (auto simp: dtod_transfer_init_def andThen_eq_Inr Let_def split: if_splits)
qed

lemma switch_host:
  assumes "transfer_init_switch w n fl t tr = Inr (t', tr')"
  shows "\<exists>new. tr' = tr @ new \<and> acq_from is_host_alloc (length tr) new = host_buffer t'
           \<and> (\<forall>c \<in> set new. \<not> is_release c)"
proof (cases "type t")
  case HTOD
  with assms have "htod_transfer_init w t n fl tr = Inr (t', tr')"
    by (simp add: transfer_init_switch_def)
  from htod_host [OF this] obtain pre hc where
    "tr' = tr @ (pre @ [hc, hipMalloc n])"
    "\<forall>c \<in> set pre. \<not> is_host_alloc c \<and> \<not> is_release c"
    "is_host_alloc hc" "src t' = Suc (length tr + length pre)" "type t' = type t"
    by auto
  moreover from this HTOD have
    "acq_from is_host_alloc (length tr) (pre @ [hc, hipMalloc n]) = host_buffer t'"
    by (simp add: acq_from_append acq_from_none host_buffer_def)
  moreover from calculation have "\<forall>c \<in> set (pre @ [hc, hipMalloc n]). \<not> is_release c"
    by (cases hc) auto
  ultimately show ?thesis by blast
next
  case DTOH
  with assms have "dtoh_transfer_init w t n fl tr = Inr (t', tr')"
    by (simp add: transfer_init_switch_def)
  from dtoh_host [OF this] obtain pre hc where
    "tr' = tr @ (pre @ [hc, hipMalloc n])"
    "\<forall>c \<in> set pre. \<not> is_host_alloc c \<and> \<not> is_release c"
    "is_host_alloc hc" "dest t' = Suc (length tr + length pre)" "type t' = type t"
    by auto
  moreover from this DTOH have
    "acq_from is_host_alloc (length tr) (pre @ [hc, hipMalloc n]) = host_buffer t'"
    by (simp add: acq_from_append acq_from_none host_buffer_def)
  moreover from calculation have "\<forall>c \<in> set (pre @ [hc, hipMalloc n]). \<not> is_release c"
    by (cases hc) auto
  ultimately show ?thesis by blast
next
  case DTOD
  with assms have d: "dtod_transfer_init w t n tr = Inr (t', tr')"
    by (simp add: transfer_init_switch_def)
  from dtod_host [OF d] DTOD show ?thesis
    by (auto simp: acq_from_none host_buffer_def)
qed

lemma loop_host:
  assumes "transfer_init_loop w n fl ts tr = Inr (ts', tr')"
  shows "\<exists>new. tr' = tr @ new
           \<and> acq_from is_host_alloc (length tr) new = concat (map host_buffer ts')
           \<and> (\<forall>c \<in> set new. \<not> is_release c)"
  using assms
proof (induction ts arbitrary: tr ts' tr')
  case Nil
  then show ?case by simp
next
  case (Cons t ts)
  from Cons.prems obtain t1 tr1 ts1 where
    s: "transfer_init_switch w n fl t tr = Inr (t1, tr1)"
    and r: "transfer_init_loop w n fl ts tr1 = Inr (ts1, tr')" and e: "ts' = t1 # ts1"
    by (auto simp: andThen_eq_Inr)
  from switch_host [OF s] obtain n1 where
    n1: "tr1 = tr @ n1" "acq_from is_host_alloc (length tr) n1 = host_buffer t1"
      "\<forall>c \<in> set n1. \<not> is_release c"
    by blast
  from Cons.IH [OF r] obtain n2 where
    n2: "tr' = tr1 @ n2" "acq_from is_host_alloc (length tr1) n2 = concat (map host_buffer ts1)"
      "\<forall>c \<in> set n2. \<not> is_release c"
    by blast
  have "tr' = tr @ (n1 @ n2)"
    using n1 n2 by simp
  moreover have "acq_from is_host_alloc (length tr) (n1 @ n2) = concat (map host_buffer ts')"
    using n1 n2 e by (simp add: acq_from_append)
  moreover have "\<forall>c \<in> set (n1 @ n2). \<not> is_release c"
    using n1 n2 by auto
  ultimately show ?case by blast
qed

lemma argp_parse_trace:
  assumes "argp_parse opts h e tr = Inr (x, tr')"
  shows "tr' = tr"
  using assms
proof (induction opts arbitrary: h e)
  case Nil
  then show ?case
    by (auto simp: andThen_eq_Inr dest: parse_opt_end_trace)
next
  case (Cons ka opts)
  obtain k a where ka: "ka = (k, a)" by (cases ka)
  from Cons.prems ka obtain r h1 e1 tr1 where
    s: "parse_opt (Key k) a h e tr = Inr ((r, h1, e1), tr1)"
    and n: "argp_parse opts h1 e1 tr1 = Inr (x, tr')"
    by (auto simp: andThen_eq_Inr)
  from parse_opt_option_outcome [of k a h e tr] s have "tr1 = tr" by auto
  with Cons.IH n show ?case by simp
qed

lemma init_host:
  assumes "init w opts = Inr (hits, tr0)"
  shows "host_acquired tr0 = concat (map host_buffer (transfer hits))"
    and "\<forall>c \<in> set tr0. \<not> is_release c"
proof -
  from assms obtain h0 e0 tr1 where
    a: "argp_parse opts defaults 0 [malloc_transfers] = Inr ((h0, e0), tr1)"
    and t: "transfer_init w h0 tr1 = Inr (hits, tr0)"
    by (auto simp: init_def Let_def andThen_eq_Inr split: if_splits)
  from argp_parse_trace [OF a] have tr1: "tr1 = [malloc_transfers]" .
  from t obtain ts where
    l: "transfer_init_loop w (size_t_of_long (n_size h0)) (alloc_flags h0) (transfer h0) tr1
          = Inr (ts, tr0)"
    and ts: "transfer hits = ts"
    by (auto simp: transfer_init_def andThen_eq_Inr)
  from loop_host [OF l] obtain new where
    new: "tr0 = tr1 @ new" "acq_from is_host_alloc (length tr1) new = concat (map host_buffer ts)"
      "\<forall>c \<in> set new. \<not> is_release c"
    by blast
  show "host_acquired tr0 = concat (map host_buffer (transfer hits))"
    using new(1,2) tr1 ts by (simp add: host_acquired_def)
  show "\<forall>c \<in> set tr0. \<not> is_release c"
    using new(1,3) tr1 by auto
qed

lemma step_calls_quiet:
  "\<forall>c \<in> set (step_calls nb l t). \<not> is_host_alloc c \<and> \<not> is_release c"
  by (simp add: step_calls_def copy_call_def)

lemma round_calls_quiet:
  "\<forall>c \<in> set (round_calls nb l ts). \<not> is_host_alloc c \<and> \<not> is_release c"
  using step_calls_quiet by (auto simp: round_calls_def)

lemma host_buffer_started [simp]: "host_buffer (started t) = host_buffer t"
  by (simp add: host_buffer_def split: TransferType.splits)

lemma issue_loop_quiet:
  assumes "issue_loop w niter nb 0 ts tr = Inr (ts', tr')"
  shows "\<exists>new. tr' = tr @ new \<and> (\<forall>c \<in> set new. \<not> is_host_alloc c \<and> \<not> is_release c)"
    and "map host_buffer ts' = map host_buffer ts"
proof -
  from issue_loop_reaches [OF assms order_refl] have
    p: "issue_prefix w niter nb niter ts tr = Inr (ts', tr')"
    by (auto simp: issue_loop_end)
  from issue_prefix_result [OF p] round_calls_quiet
  show "\<exists>new. tr' = tr @ new \<and> (\<forall>c \<in> set new. \<not> is_host_alloc c \<and> \<not> is_release c)"
    by auto
  from issue_prefix_result [OF p] show "map host_buffer ts' = map host_buffer ts"
    by (simp add: comp_def)
qed

lemma synchronize_extends:
  assumes "\<And>d. Q (hipSetDevice d)" "Q hipDeviceSynchronize" "\<And>m. Q (fprintf_stderr m)"
  shows "extends Q tr (synchronize w ts tr)"
  by (induction ts arbitrary: tr)
     (auto intro!: extends_andThen extends_checkHip assms)

lemma report_extends:
  assumes "\<And>d. Q (hipSetDevice d)" "\<And>a b. Q (hipEventElapsedTime a b)" "\<And>m. Q (fprintf_stderr m)"
    "\<And>m. Q (printf m)"
  shows "extends Q tr (report w i ts tr)"
proof (induction ts arbitrary: tr i)
  case Nil
  then show ?case by simp
next
  case (Cons t ts)
  show ?case
    unfolding report.simps
  proof (intro extends_andThen extends_checkHip assms)
    fix x tr1 xa tr1a
    let ?p = "printf (if type t = DTOD
                  then Result_p2p i (device2 t) (pciBusID (prop_device2 t)) (device t)
                         (pciBusID (prop_device t))
                  else Result_direct i (type t) (device t) (pciBusID (prop_device t)))"
    have "extends Q (tr1a @ [?p]) (report w (Suc i) ts (tr1a @ [?p]))"
      by (rule Cons.IH)
    then show "extends Q tr1a (report w (Suc i) ts (tr1a @ [?p]))"
      by (rule extends_app [rotated]) (simp add: assms)
  qed
qed

lemma fini_loop_shape:
  assumes "fini_loop w fl ts tr = Inr (u, tr')"
  shows "tr' = tr @ map (free_call fl) (concat (map host_buffer ts))"
  using assms
proof (induction ts arbitrary: tr)
  case Nil
  then show ?case by simp
next
  case (Cons t ts)
  from Cons.prems obtain tr1 where
    s: "(case type t of
           DTOH \<Rightarrow> (if fl AND is_pinned \<noteq> 0 then checkHip w (hipHostFree (dest t)) tr
                    else Inr ((), tr @ [free (dest t)]))
         | HTOD \<Rightarrow> (if fl AND is_pinned \<noteq> 0 then checkHip w (hipHostFree (src t)) tr
                    else Inr ((), tr @ [free (src t)]))
         | DTOD \<Rightarrow> Inr ((), tr)) = Inr ((), tr1)"
    and r: "fini_loop w fl ts tr1 = Inr (u, tr')"
    by (auto simp: andThen_eq_Inr)
  from s have "tr1 = tr @ map (free_call fl) (host_buffer t)"
    by (cases "type t")
       (auto simp: host_buffer_def free_call_def checkHip_eq_Inr split: if_splits)
  with Cons.IH [OF r] show ?case by simp
qed


lemma main_opts3: "main W_ok opts3 = (Exit 0, TR_main3)"
proof -
  have n: "size_t_of_long 3 = 3" "size_t_of_long 1024 = 1024"
    by (simp_all add: size_t_of_long_def)
  show ?thesis
    unfolding main_def init_opts3 andThen_Inr
    apply (simp add: n issue_loop_opts3)
    apply (simp add: checkHip_def fini_def is_pinned_def W_ok_def T_ready_def started_def
        TR_main3_def)
    done
qed




end
